theory Spec2Isabelle
  imports Main "HOL-Library.Word" "HOL-Library.Multiset"
begin

unbundle bit_operations_syntax

section \<open>Geometry and colours\<close>

text \<open>
  Go's \<^verbatim>\<open>image.Rectangle\<close> is a pair of points \<^verbatim>\<open>Min\<close>, \<^verbatim>\<open>Max\<close>; the four
  coordinates are kept flat here (\<^verbatim>\<open>Min.X\<close> is \<open>MinX\<close>, and so on). Go's \<^verbatim>\<open>int\<close> is
  modelled as \<open>int\<close>: the coordinates of a decoded bitmap stay far below 2^63.
\<close>

record Rectangle =
  MinX :: int
  MinY :: int
  MaxX :: int
  MaxY :: int

definition Dx :: "Rectangle \<Rightarrow> int" where
  "Dx r = MaxX r - MinX r"

definition Dy :: "Rectangle \<Rightarrow> int" where
  "Dy r = MaxY r - MinY r"

definition Empty :: "Rectangle \<Rightarrow> bool" where
  "Empty r = (MinX r \<ge> MaxX r \<or> MinY r \<ge> MaxY r)"

definition ZR :: Rectangle where
  "ZR = \<lparr>MinX = 0, MinY = 0, MaxX = 0, MaxY = 0\<rparr>"

text \<open>\<^verbatim>\<open>Rectangle.Intersect\<close> of the standard library: the clipped rectangle, or \<^verbatim>\<open>ZR\<close>
  when the clipped rectangle is empty.\<close>

definition Intersect :: "Rectangle \<Rightarrow> Rectangle \<Rightarrow> Rectangle" where
  "Intersect r s =
    (let r1 = (if MinX r < MinX s then r\<lparr>MinX := MinX s\<rparr> else r);
         r2 = (if MinY r1 < MinY s then r1\<lparr>MinY := MinY s\<rparr> else r1);
         r3 = (if MaxX r2 > MaxX s then r2\<lparr>MaxX := MaxX s\<rparr> else r2);
         r4 = (if MaxY r3 > MaxY s then r3\<lparr>MaxY := MaxY s\<rparr> else r3)
     in if Empty r4 then ZR else r4)"

text \<open>
  A \<^verbatim>\<open>color.Color\<close> is either a \<^verbatim>\<open>color.Gray\<close> (which \<^verbatim>\<open>color.GrayModel\<close> returns
  unchanged) or any other colour, given by what its \<^verbatim>\<open>RGBA()\<close> method returns.
\<close>

datatype color = Gray "8 word" | RGBA "32 word" "32 word" "32 word" "32 word"

fun grayModel :: "color \<Rightarrow> 8 word" where
  "grayModel (Gray y) = y"
| "grayModel (RGBA r g b a) =
     ucast (drop_bit 24 (19595 * r + 38470 * g + 7471 * b + push_bit 15 (1 :: 32 word)))"

definition colorIsBlank :: "color \<Rightarrow> bool" where
  "colorIsBlank c = (let g = grayModel c in g \<ge> 0xf0)"

text \<open>An \<^verbatim>\<open>image.Image\<close>: its bounds and its pixel function \<^verbatim>\<open>At\<close>.\<close>

record image =
  Bounds :: Rectangle
  At :: "int \<Rightarrow> int \<Rightarrow> color"

section \<open>The margin detector \<^verbatim>\<open>findMarging\<close>\<close>

text \<open>The inner loop over \<open>y\<close> of the LEFT and RIGHT scans: True when the loop ends
  without reaching the \<^verbatim>\<open>break\<close>, that is when column \<open>x\<close> is blank from \<open>y\<close> up to
  \<open>ymax\<close>.\<close>

function column_blank :: "image \<Rightarrow> int \<Rightarrow> int \<Rightarrow> int \<Rightarrow> bool" where
  "column_blank img x y ymax =
     (if y < ymax
      then (if \<not> colorIsBlank (At img x y) then False else column_blank img x (y + 1) ymax)
      else True)"
  by pat_completeness auto
termination
  by (relation "measure (\<lambda>(img, x, y, ymax). nat (ymax - y))") auto

declare column_blank.simps [simp del]

text \<open>The inner loop over \<open>x\<close> of the UP and BOTTOM scans.\<close>

function row_blank :: "image \<Rightarrow> int \<Rightarrow> int \<Rightarrow> int \<Rightarrow> bool" where
  "row_blank img y x xmax =
     (if x < xmax
      then (if \<not> colorIsBlank (At img x y) then False else row_blank img y (x + 1) xmax)
      else True)"
  by pat_completeness auto
termination
  by (relation "measure (\<lambda>(img, y, x, xmax). nat (xmax - x))") auto

declare row_blank.simps [simp del]

text \<open>The four labelled loops. Each takes the rectangle \<^verbatim>\<open>imgArea\<close> as it stands when
  the loop is entered and the loop variable, and returns \<^verbatim>\<open>imgArea\<close> as the loop leaves
  it. The loop conditions and the inner ranges read the current \<^verbatim>\<open>imgArea\<close>, as the
  source does.\<close>

function left_loop :: "image \<Rightarrow> Rectangle \<Rightarrow> int \<Rightarrow> Rectangle" where
  "left_loop img imgArea x =
     (if x < MaxX imgArea
      then (if column_blank img x (MinY imgArea) (MaxY imgArea)
            then left_loop img (imgArea\<lparr>MinX := MinX imgArea + 1\<rparr>) (x + 1)
            else imgArea)
      else imgArea)"
  by pat_completeness auto
termination
  by (relation "measure (\<lambda>(img, imgArea, x). nat (MaxX imgArea - x))") auto

declare left_loop.simps [simp del]

function up_loop :: "image \<Rightarrow> Rectangle \<Rightarrow> int \<Rightarrow> Rectangle" where
  "up_loop img imgArea y =
     (if y < MaxY imgArea
      then (if row_blank img y (MinX imgArea) (MaxX imgArea)
            then up_loop img (imgArea\<lparr>MinY := MinY imgArea + 1\<rparr>) (y + 1)
            else imgArea)
      else imgArea)"
  by pat_completeness auto
termination
  by (relation "measure (\<lambda>(img, imgArea, y). nat (MaxY imgArea - y))") auto

declare up_loop.simps [simp del]

function right_loop :: "image \<Rightarrow> Rectangle \<Rightarrow> int \<Rightarrow> Rectangle" where
  "right_loop img imgArea x =
     (if x \<ge> MinX imgArea
      then (if column_blank img x (MinY imgArea) (MaxY imgArea)
            then right_loop img (imgArea\<lparr>MaxX := MaxX imgArea - 1\<rparr>) (x - 1)
            else imgArea)
      else imgArea)"
  by pat_completeness auto
termination
  by (relation "measure (\<lambda>(img, imgArea, x). nat (x + 1 - MinX imgArea))") auto

declare right_loop.simps [simp del]

function bottom_loop :: "image \<Rightarrow> Rectangle \<Rightarrow> int \<Rightarrow> Rectangle" where
  "bottom_loop img imgArea y =
     (if y \<ge> MinY imgArea
      then (if row_blank img y (MinX imgArea) (MaxX imgArea)
            then bottom_loop img (imgArea\<lparr>MaxY := MaxY imgArea - 1\<rparr>) (y - 1)
            else imgArea)
      else imgArea)"
  by pat_completeness auto
termination
  by (relation "measure (\<lambda>(img, imgArea, y). nat (y + 1 - MinY imgArea))") auto

declare bottom_loop.simps [simp del]

definition findMarging :: "image \<Rightarrow> Rectangle" where
  "findMarging img =
    (let imgArea = Bounds img;
         imgArea = left_loop img imgArea (MinX imgArea);
         imgArea = up_loop img imgArea (MinY imgArea);
         imgArea = right_loop img imgArea (MaxX imgArea - 1);
         imgArea = bottom_loop img imgArea (MaxY imgArea - 1)
     in imgArea)"

text \<open>The detector as the specification words it: every side is shrunk by its own scan
  run on the bitmap's original bounds, and the four results are put together.\<close>

definition independentMargin :: "image \<Rightarrow> Rectangle" where
  "independentMargin img =
    (let b = Bounds img
     in \<lparr>MinX = MinX (left_loop img b (MinX b)),
         MinY = MinY (up_loop img b (MinY b)),
         MaxX = MaxX (right_loop img b (MaxX b - 1)),
         MaxY = MaxY (bottom_loop img b (MaxY b - 1))\<rparr>)"

text \<open>A pixel inside the bounds that is not blank; and its absence.\<close>

definition has_content :: "image \<Rightarrow> bool" where
  "has_content img =
     (\<exists>x \<in> {MinX (Bounds img) ..< MaxX (Bounds img)}.
      \<exists>y \<in> {MinY (Bounds img) ..< MaxY (Bounds img)}. \<not> colorIsBlank (At img x y))"

definition all_blank :: "image \<Rightarrow> bool" where
  "all_blank img =
     (\<forall>x \<in> {MinX (Bounds img) ..< MaxX (Bounds img)}.
      \<forall>y \<in> {MinY (Bounds img) ..< MaxY (Bounds img)}. colorIsBlank (At img x y))"

section \<open>Filters of the \<^verbatim>\<open>gift\<close> library\<close>

text \<open>
  A \<^verbatim>\<open>gift.GIFT\<close> is used through two methods only: \<^verbatim>\<open>Bounds\<close>, which maps the bounds
  of the source to the bounds of the destination, and \<^verbatim>\<open>Draw\<close>, which fills the
  destination from the source. The pattern
  \<^verbatim>\<open>dst := image.NewX(g.Bounds(src.Bounds())); g.Draw(dst, src)\<close> of the source is
  \<open>apply_gift\<close>. Colour models of the destination (NRGBA, the palette) are not modelled:
  no statement below reads a pixel of a destination.
\<close>

record gift =
  gBounds :: "Rectangle \<Rightarrow> Rectangle"
  gDraw :: "image \<Rightarrow> int \<Rightarrow> int \<Rightarrow> color"

definition apply_gift :: "gift \<Rightarrow> image \<Rightarrow> image" where
  "apply_gift g src = \<lparr>Bounds = gBounds g (Bounds src), At = gDraw g src\<rparr>"

text \<open>\<^verbatim>\<open>gift.New(gift.Crop(rect))\<close>: the destination has the size of the intersection of
  the source bounds with \<open>rect\<close>, moved to the origin.\<close>

definition giftCrop :: "Rectangle \<Rightarrow> gift" where
  "giftCrop rect =
     \<lparr>gBounds = (\<lambda>srcBounds. let b = Intersect srcBounds rect
                   in \<lparr>MinX = 0, MinY = 0, MaxX = Dx b, MaxY = Dy b\<rparr>),
      gDraw = (\<lambda>src x y. let srcb = Intersect (Bounds src) rect
                   in At src (x + MinX srcb) (y + MinY srcb))\<rparr>"

section \<open>The conversion pipeline \<^verbatim>\<open>LoadImages\<close> (image\_processing.go)\<close>

text \<open>How a run ends: the process exits (\<^verbatim>\<open>os.Exit\<close>), a goroutine panics, the
  function returns an error, or it returns a value.\<close>

datatype 'a result = Exits int | Panics | Fails string | Returns 'a

text \<open>The fields of \<^verbatim>\<open>ImageOptions\<close> that the pipeline reads (the palette is handed to
  \<^verbatim>\<open>image.NewPaletted\<close> only).\<close>

record ImageOptions =
  Crop :: bool
  ViewWidth :: int
  ViewHeight :: int
  Quality :: int
  NoBlankPage :: bool
  HasCover :: bool
  AutoSplitDoublePage :: bool
  Workers :: int

text \<open>Struct \<^verbatim>\<open>Image\<close>. Its fields \<^verbatim>\<open>Id\<close> and \<^verbatim>\<open>Path\<close> are \<open>ImgId\<close> and \<open>ImgPath\<close>
  here, those of \<^verbatim>\<open>imageTask\<close> are \<open>TaskId\<close> and \<open>TaskPath\<close>. \<^verbatim>\<open>Data\<close> is a pointer:
  \<open>None\<close> is \<^verbatim>\<open>nil\<close>.\<close>

record 'd Image =
  ImgId :: int
  Part :: int
  Data :: "'d option"
  Width :: int
  Height :: int
  IsCover :: bool
  NeedSpace :: bool
  ImgPath :: string

text \<open>Struct \<^verbatim>\<open>imageTask\<close>; the reader is the bytes it will deliver.\<close>

record imageTask =
  TaskId :: int
  Reader :: "8 word list"
  TaskPath :: string
  Filename :: string

text \<open>
  What the pipeline calls and the source files do not define:
  \<^verbatim>\<open>image.Decode\<close>, \<^verbatim>\<open>NewGift\<close>, \<^verbatim>\<open>NewGiftSplitDoublePage\<close>, \<^verbatim>\<open>newImageData\<close>, the
  sort \<^verbatim>\<open>sort.Sort(sortpath.By(names))\<close> as a function from the list to the sorted
  list, \<^verbatim>\<open>filepath.Clean\<close>, \<^verbatim>\<open>filepath.Dir\<close>, and the text rendering of \<^verbatim>\<open>gg\<close>. They
  are parameters of the model.
\<close>

record 'd externals =
  Decode :: "8 word list \<Rightarrow> string + image"
  NewGift :: "ImageOptions \<Rightarrow> gift"
  NewGiftSplitDoublePage :: "ImageOptions \<Rightarrow> gift list"
  newImageData :: "int \<Rightarrow> int \<Rightarrow> image \<Rightarrow> int \<Rightarrow> 'd"
  sortNames :: "string list \<Rightarrow> string list"
  Clean :: "string \<Rightarrow> string"
  Dir :: "string \<Rightarrow> string"
  ggRender :: "string \<Rightarrow> int \<Rightarrow> int \<Rightarrow> color"

text \<open>Lines 165 to 170: the optional crop, which replaces \<^verbatim>\<open>src\<close>.\<close>

definition crop_stage :: "ImageOptions \<Rightarrow> image \<Rightarrow> image" where
  "crop_stage options src =
     (if Crop options then apply_gift (giftCrop (findMarging src)) src else src)"

text \<open>The condition of lines 192 to 196, on the task and the bitmap \<^verbatim>\<open>src\<close> it is
  given.\<close>

definition split_condition :: "ImageOptions \<Rightarrow> imageTask \<Rightarrow> image \<Rightarrow> bool" where
  "split_condition options img src =
     ((\<not> HasCover options \<or> TaskId img > 0) \<and>
      AutoSplitDoublePage options \<and>
      Dx (Bounds src) > Dy (Bounds src) \<and>
      Dx (Bounds src) > ViewHeight options \<and>
      Dy (Bounds src) > ViewWidth options)"

text \<open>The body of the worker's loop (lines 156 to 213) for one task: the results it
  sends on \<^verbatim>\<open>imageOutput\<close>, in the order it sends them, or the exit of the process.\<close>

definition convert_task ::
  "'d externals \<Rightarrow> ImageOptions \<Rightarrow> imageTask \<Rightarrow> 'd Image list result" where
  "convert_task ext options img =
     (case Decode ext (Reader img) of
        Inl err \<Rightarrow> Exits 1
      | Inr decoded \<Rightarrow>
          let src = crop_stage options decoded;
              g = NewGift ext options;
              dst = apply_gift g src;
              whole = \<lparr>ImgId = TaskId img, Part = 0,
                       Data = Some (newImageData ext (TaskId img) 0 dst (Quality options)),
                       Width = Dx (Bounds dst), Height = Dy (Bounds dst),
                       IsCover = (TaskId img = 0), NeedSpace = False,
                       ImgPath = TaskPath img\<rparr>;
              halves =
                (if split_condition options img src
                 then map (\<lambda>(i, g).
                        let part = int i + 1;
                            dst = apply_gift g src
                        in \<lparr>ImgId = TaskId img, Part = part,
                            Data = Some (newImageData ext (TaskId img) part dst (Quality options)),
                            Width = Dx (Bounds dst), Height = Dy (Bounds dst),
                            IsCover = False, NeedSpace = False,
                            ImgPath = TaskPath img\<rparr>)
                      (enumerate 0 (NewGiftSplitDoublePage ext options))
                 else [])
          in Returns (whole # halves))"

text \<open>
  The worker pool. \<open>imageInput\<close> holds the tasks no worker has received yet, \<open>busy\<close>
  holds for every worker the results of its current task that it has not sent yet, and
  \<open>received\<close> is what the collecting loop (lines 223 to 230) has received, in order.
  A step of worker \<open>w\<close> sends its next result, or, when it has none, receives the next task
  and converts it. Which worker moves next is the schedule, a list of worker numbers.
\<close>

record 'd pool =
  imageInput :: "imageTask list"
  busy :: "'d Image list list"
  received :: "'d Image list"

definition worker_step ::
  "'d externals \<Rightarrow> ImageOptions \<Rightarrow> nat \<Rightarrow> 'd pool \<Rightarrow> 'd pool result" where
  "worker_step ext options w p =
     (if w \<ge> length (busy p) then Returns p
      else case busy p ! w of
             r # rs \<Rightarrow> Returns (p\<lparr>busy := (busy p)[w := rs], received := received p @ [r]\<rparr>)
           | [] \<Rightarrow>
              (case imageInput p of
                 [] \<Rightarrow> Returns p
               | img # rest \<Rightarrow>
                  (case convert_task ext options img of
                     Returns rs \<Rightarrow> Returns (p\<lparr>imageInput := rest, busy := (busy p)[w := rs]\<rparr>)
                   | Exits n \<Rightarrow> Exits n
                   | Panics \<Rightarrow> Panics
                   | Fails e \<Rightarrow> Fails e)))"

fun run_pool ::
  "'d externals \<Rightarrow> ImageOptions \<Rightarrow> nat list \<Rightarrow> 'd pool \<Rightarrow> 'd pool result" where
  "run_pool ext options [] p = Returns p"
| "run_pool ext options (w # ws) p =
     (case worker_step ext options w p of
        Returns p' \<Rightarrow> run_pool ext options ws p'
      | Exits n \<Rightarrow> Exits n
      | Panics \<Rightarrow> Panics
      | Fails e \<Rightarrow> Fails e)"

text \<open>Every worker has left its loop: it has nothing to send and the input is drained.
  With no worker at all this holds at once, as \<^verbatim>\<open>wg.Wait()\<close> returns at once.\<close>

definition finished :: "'d pool \<Rightarrow> bool" where
  "finished p = (\<forall>b \<in> set (busy p). b = [] \<and> imageInput p = [])"

text \<open>The test of line 224.\<close>

definition keep_image :: "ImageOptions \<Rightarrow> 'd Image \<Rightarrow> bool" where
  "keep_image options im =
     (\<not> (NoBlankPage options \<and> Width im = 1 \<and> Height im = 1))"

text \<open>The record a dry run makes of a task (lines 130 to 139).\<close>

definition dry_image :: "imageTask \<Rightarrow> 'd Image" where
  "dry_image img =
     \<lparr>ImgId = TaskId img, Part = 0, Data = None, Width = 0, Height = 0,
      IsCover = False, NeedSpace = False, ImgPath = TaskPath img\<rparr>"

text \<open>
  \<^verbatim>\<open>LoadImages\<close> from line 124 on. \<open>loaded\<close> is what the dispatch on the path and the
  loader gave: an error, or the count and the tasks the loader's goroutine sends.
  The result is \<open>None\<close> when the schedule ends before the workers have finished.
\<close>

definition LoadImages ::
  "'d externals \<Rightarrow> ImageOptions \<Rightarrow> bool \<Rightarrow> (int \<times> imageTask list) result \<Rightarrow> nat list
     \<Rightarrow> 'd Image list result option" where
  "LoadImages ext options dry loaded schedule =
     (case loaded of
        Exits n \<Rightarrow> Some (Exits n)
      | Panics \<Rightarrow> Some Panics
      | Fails err \<Rightarrow> Some (Fails err)
      | Returns (imageCount, tasks) \<Rightarrow>
          if dry then Some (Returns (map dry_image tasks))
          else
            (case run_pool ext options schedule
                    \<lparr>imageInput = tasks, busy = replicate (nat (Workers options)) [],
                     received = []\<rparr> of
               Exits n \<Rightarrow> Some (Exits n)
             | Panics \<Rightarrow> Some Panics
             | Fails e \<Rightarrow> Some (Fails e)
             | Returns p \<Rightarrow>
                 if \<not> finished p then None
                 else
                   let images = filter (keep_image options) (received p)
                   in if images = [] then Some (Fails ''image not found'')
                      else Some (Returns images)))"

section \<open>The loaders\<close>

subsection \<open>Recognising image files\<close>

text \<open>\<^verbatim>\<open>filepath.Ext\<close>: scanning from the end, the suffix that starts at the last dot of
  the last path element; empty when a separator comes first or there is no dot.
  \<open>ext_scan\<close> walks the reversed path and collects what it has passed.\<close>

fun ext_scan :: "string \<Rightarrow> string \<Rightarrow> string" where
  "ext_scan [] acc = []"
| "ext_scan (c # cs) acc =
     (if c = CHR ''/'' then []
      else if c = CHR ''.'' then c # acc
      else ext_scan cs (c # acc))"

definition Ext :: "string \<Rightarrow> string" where
  "Ext path = ext_scan (rev path) []"

text \<open>\<^verbatim>\<open>strings.ToLower\<close> on the ASCII letters. Only the comparison with the four
  extensions below reads its result, and no other byte sequence is mapped into
  their letters.\<close>

definition ToLower :: "string \<Rightarrow> string" where
  "ToLower s =
     map (\<lambda>c. let n = (of_char c :: nat)
               in if 65 \<le> n \<and> n \<le> 90 then char_of (n + 32) else c) s"

definition isSupportedImage :: "string \<Rightarrow> bool" where
  "isSupportedImage path =
     (let e = ToLower (Ext path)
      in e = ''.jpg'' \<or> e = ''.jpeg'' \<or> e = ''.png'' \<or> e = ''.webp'')"

subsection \<open>Indexing names\<close>

text \<open>The loop \<^verbatim>\<open>for i, name := range names { indexedNames[name] = i }\<close>, and a read
  of the map, which gives 0 for a missing key.\<close>

fun index_loop :: "(string \<rightharpoonup> int) \<Rightarrow> nat \<Rightarrow> string list \<Rightarrow> (string \<rightharpoonup> int)" where
  "index_loop indexedNames i [] = indexedNames"
| "index_loop indexedNames i (name # names) =
     index_loop (indexedNames(name \<mapsto> int i)) (Suc i) names"

definition indexNames :: "string list \<Rightarrow> (string \<rightharpoonup> int)" where
  "indexNames names = index_loop Map.empty 0 names"

definition lookupIndex :: "(string \<rightharpoonup> int) \<Rightarrow> string \<Rightarrow> int" where
  "lookupIndex m name = (case m name of None \<Rightarrow> 0 | Some i \<Rightarrow> i)"

subsection \<open>Zip archives\<close>

text \<open>An entry of the archive's file table: its name, whether it is a directory, and
  what \<^verbatim>\<open>Open\<close> gives. \<^verbatim>\<open>zip.OpenReader\<close> gives an error or the table.\<close>

record zipFile =
  zName :: string
  zIsDir :: bool
  zOpen :: "string + 8 word list"

text \<open>\<^verbatim>\<open>loadCbz\<close> of image\_processing.go. The goroutine that fills the channel exits
  the process when an entry does not open.\<close>

fun cbz_send ::
  "'d externals \<Rightarrow> (string \<rightharpoonup> int) \<Rightarrow> zipFile list \<Rightarrow> imageTask list result" where
  "cbz_send ext indexedNames [] = Returns []"
| "cbz_send ext indexedNames (img # rest) =
     (case zOpen img of
        Inl err \<Rightarrow> Exits 1
      | Inr f \<Rightarrow>
         (case cbz_send ext indexedNames rest of
            Returns ts \<Rightarrow>
              Returns (\<lparr>TaskId = lookupIndex indexedNames (zName img), Reader = f,
                        TaskPath = Dir ext (Clean ext (zName img)),
                        Filename = zName img\<rparr> # ts)
          | Exits n \<Rightarrow> Exits n
          | Panics \<Rightarrow> Panics
          | Fails e \<Rightarrow> Fails e))"

definition loadCbz ::
  "'d externals \<Rightarrow> string + zipFile list \<Rightarrow> (int \<times> imageTask list) result" where
  "loadCbz ext input =
     (case input of
        Inl err \<Rightarrow> Fails err
      | Inr files \<Rightarrow>
          let images = filter (\<lambda>f. \<not> zIsDir f \<and> isSupportedImage (zName f)) files
          in if length images = 0 then Fails ''no images found''
             else
               let names = sortNames ext (map zName images);
                   indexedNames = indexNames names
               in (case cbz_send ext indexedNames images of
                     Returns ts \<Rightarrow> Returns (int (length images), ts)
                   | Exits n \<Rightarrow> Exits n
                   | Panics \<Rightarrow> Panics
                   | Fails e \<Rightarrow> Fails e))"

text \<open>\<^verbatim>\<open>loadCbz\<close> of epub\_image\_processor\_loader.go up to its job queue (lines 190
  to 232): the count and the jobs \<^verbatim>\<open>{Id, F}\<close> in the order they are queued.\<close>

record cbzJob =
  cjId :: int
  cjF :: zipFile

definition loadCbz_jobs ::
  "'d externals \<Rightarrow> string + zipFile list \<Rightarrow> (int \<times> cbzJob list) result" where
  "loadCbz_jobs ext input =
     (case input of
        Inl err \<Rightarrow> Fails err
      | Inr files \<Rightarrow>
          let images = filter (\<lambda>f. \<not> zIsDir f \<and> isSupportedImage (zName f)) files;
              totalImages = length images
          in if totalImages = 0 then Fails ''no images found''
             else
               let names = sortNames ext (map zName images);
                   indexedNames = indexNames names
               in Returns (int totalImages,
                    map (\<lambda>img. \<lparr>cjId = lookupIndex indexedNames (zName img), cjF = img\<rparr>)
                      images))"

subsection \<open>The fallback bitmap and the directory loader's workers\<close>

text \<open>Struct \<^verbatim>\<open>tasks\<close> of the loader; \<open>None\<close> is a \<^verbatim>\<open>nil\<close> image or error.\<close>

record tasks =
  tId :: int
  tImage :: "image option"
  tPath :: string
  tName :: string
  tError :: "string option"

text \<open>The text \<^verbatim>\<open>corruptedImage\<close> draws, and the bitmap: a \<^verbatim>\<open>gg\<close> context of
  \<^verbatim>\<open>int(w)\<close> by \<^verbatim>\<open>int(h)\<close> pixels whose content is the rendering of the text.\<close>

definition corruptedText :: "'d externals \<Rightarrow> string \<Rightarrow> string \<Rightarrow> string" where
  "corruptedText ext path name =
     (let txt = name;
          txt = (if path \<noteq> [] then txt @ [CHR 0x0A] @ ''in '' @ Clean ext path else txt);
          txt = txt @ [CHR 0x0A] @ ''is corrupted!''
      in txt)"

definition corruptedImage :: "'d externals \<Rightarrow> string \<Rightarrow> string \<Rightarrow> image" where
  "corruptedImage ext path name =
     (let w = 1200; h = 1920
      in \<lparr>Bounds = \<lparr>MinX = 0, MinY = 0, MaxX = w, MaxY = h\<rparr>,
          At = ggRender ext (corruptedText ext path name)\<rparr>)"


text \<open>
  The body of a worker's loop in \<^verbatim>\<open>loadDir\<close> (lines 148 to 176) for one job.
  \<open>openFile\<close> is the file system as \<^verbatim>\<open>os.Open\<close> sees it, \<open>input\<close> the cleaned input
  path. The slice \<^verbatim>\<open>p[len(input)+1:]\<close> panics when \<open>p\<close> is shorter.
\<close>

record dirJob =
  djId :: int
  djPath :: string



subsection \<open>Rar archives\<close>

text \<open>
  An entry as \<^verbatim>\<open>rardecode.List\<close> gives it, with what its own \<^verbatim>\<open>Open\<close> delivers. The
  sequential reader \<^verbatim>\<open>rardecode.OpenReader\<close> gives an error or a stream: every call of
  \<^verbatim>\<open>Next\<close> gives a header (its name and whether it is a directory), with the bytes
  \<^verbatim>\<open>io.Copy\<close> then reads from the entry and the error the copy ends with, if any, or
  \<^verbatim>\<open>Next\<close> gives an error; the end of the list is \<^verbatim>\<open>io.EOF\<close>. Every call of
  \<^verbatim>\<open>OpenReader\<close> on the archive gives the same stream.
\<close>

record rarFile =
  rName :: string
  rIsDir :: bool
  rSolid :: bool
  rOpen :: "string + 8 word list"

datatype rarNext = Header string bool "8 word list" "string option" | NextError string

record rarArchive =
  rList :: "string + rarFile list"
  rOpenReader :: "string + rarNext list"

text \<open>The field \<^verbatim>\<open>Open\<close> of a job: the closure over the bytes buffered in memory, or
  the entry's own \<^verbatim>\<open>Open\<close>.\<close>

datatype opener = Buffered "8 word list" | OwnOpen "string + 8 word list"

record cbrJob =
  rjId :: int
  rjName :: string
  rjOpen :: opener

text \<open>The sequential pass (lines 322 to 342). After an error of \<^verbatim>\<open>Next\<close> the header is
  \<^verbatim>\<open>nil\<close> and reading its name panics.\<close>

fun read_solid :: "(string \<rightharpoonup> int) \<Rightarrow> rarNext list \<Rightarrow> cbrJob list result" where
  "read_solid indexedNames [] = Returns []"
| "read_solid indexedNames (NextError e # rest) = Panics"
| "read_solid indexedNames (Header name isDir b rerr # rest) =
     (case indexedNames name of
        None \<Rightarrow> read_solid indexedNames rest
      | Some i \<Rightarrow>
         (case rerr of
            Some e \<Rightarrow> Exits 1
          | None \<Rightarrow>
             (case read_solid indexedNames rest of
                Returns js \<Rightarrow> Returns (\<lparr>rjId = i, rjName = name, rjOpen = Buffered b\<rparr> # js)
              | Exits n \<Rightarrow> Exits n
              | Panics \<Rightarrow> Panics
              | Fails e \<Rightarrow> Fails e)))"

definition qualifying :: "rarFile list \<Rightarrow> rarFile list" where
  "qualifying files = filter (\<lambda>f. \<not> rIsDir f \<and> isSupportedImage (rName f)) files"

text \<open>The flag \<^verbatim>\<open>isSolid\<close> after the listing loop (lines 284 to 291).\<close>

definition isSolid :: "rarFile list \<Rightarrow> bool" where
  "isSolid files = list_ex rSolid (qualifying files)"

text \<open>\<^verbatim>\<open>loadCbr\<close> of the loader up to its job queue (lines 276 to 350).\<close>

definition loadCbr_jobs ::
  "'d externals \<Rightarrow> bool \<Rightarrow> rarArchive \<Rightarrow> (int \<times> cbrJob list) result" where
  "loadCbr_jobs ext Dry archive =
     (case rList archive of
        Inl err \<Rightarrow> Fails err
      | Inr files \<Rightarrow>
          let names = map rName (qualifying files);
              totalImages = length names
          in if totalImages = 0 then Fails ''no images found''
             else
               let names = sortNames ext names;
                   indexedNames = indexNames names;
                   jobs =
                     (if isSolid files \<and> \<not> Dry
                      then (case rOpenReader archive of
                              Inl rerr \<Rightarrow> Exits 1
                            | Inr stream \<Rightarrow> read_solid indexedNames stream)
                      else Returns (concat (map (\<lambda>img.
                             case indexedNames (rName img) of
                               Some i \<Rightarrow> [\<lparr>rjId = i, rjName = rName img,
                                           rjOpen = OwnOpen (rOpen img)\<rparr>]
                             | None \<Rightarrow> []) files)))
               in (case jobs of
                     Returns js \<Rightarrow> Returns (int totalImages, js)
                   | Exits n \<Rightarrow> Exits n
                   | Panics \<Rightarrow> Panics
                   | Fails e \<Rightarrow> Fails e))"

text \<open>
  \<^verbatim>\<open>loadCbr\<close> of image\_processing.go. The listing pass (lines 353 to 368) returns the
  error of \<^verbatim>\<open>Next\<close>; the pass of the goroutine (lines 392 to 411) panics on it, copies
  every indexed entry into a buffer without looking at the error of the copy, and sends
  the buffer as the task's reader. The function reads nothing but the sequential reader.
  The sort is in place, so the count is the length of the list before it.
\<close>

fun cbr_list :: "rarNext list \<Rightarrow> string list result" where
  "cbr_list [] = Returns []"
| "cbr_list (NextError e # rest) = Fails e"
| "cbr_list (Header name isDir b rerr # rest) =
     (case cbr_list rest of
        Returns names \<Rightarrow>
          Returns (if \<not> isDir \<and> isSupportedImage name then name # names else names)
      | Exits n \<Rightarrow> Exits n
      | Panics \<Rightarrow> Panics
      | Fails e \<Rightarrow> Fails e)"

fun cbr_send ::
  "'d externals \<Rightarrow> (string \<rightharpoonup> int) \<Rightarrow> rarNext list \<Rightarrow> imageTask list result" where
  "cbr_send ext indexedNames [] = Returns []"
| "cbr_send ext indexedNames (NextError e # rest) = Panics"
| "cbr_send ext indexedNames (Header name isDir b rerr # rest) =
     (case indexedNames name of
        None \<Rightarrow> cbr_send ext indexedNames rest
      | Some idx \<Rightarrow>
         (case cbr_send ext indexedNames rest of
            Returns ts \<Rightarrow>
              Returns (\<lparr>TaskId = idx, Reader = b,
                        TaskPath = Dir ext (Clean ext name), Filename = name\<rparr> # ts)
          | Exits n \<Rightarrow> Exits n
          | Panics \<Rightarrow> Panics
          | Fails e \<Rightarrow> Fails e))"

definition loadCbr :: "'d externals \<Rightarrow> rarArchive \<Rightarrow> (int \<times> imageTask list) result" where
  "loadCbr ext archive =
     (case rOpenReader archive of
        Inl err \<Rightarrow> Fails err
      | Inr stream \<Rightarrow>
         (case cbr_list stream of
            Returns names \<Rightarrow>
              if length names = 0 then Fails ''no images found''
              else
                let indexedNames = indexNames (sortNames ext names)
                in (case cbr_send ext indexedNames stream of
                      Returns ts \<Rightarrow> Returns (int (length names), ts)
                    | Exits n \<Rightarrow> Exits n
                    | Panics \<Rightarrow> Panics
                    | Fails e \<Rightarrow> Fails e)
          | Exits n \<Rightarrow> Exits n
          | Panics \<Rightarrow> Panics
          | Fails e \<Rightarrow> Fails e))"

subsection \<open>Directories and PDF documents\<close>

text \<open>
  \<^verbatim>\<open>loadDir\<close> of the loader up to its job queue (lines 101 to 139). \<open>walk\<close> is what
  \<^verbatim>\<open>filepath.WalkDir\<close> does: it stops with an error, or it visits entries, each with its
  path and whether it is a directory.
\<close>

definition loadDir_jobs ::
  "'d externals \<Rightarrow> string + (string \<times> bool) list \<Rightarrow> (int \<times> dirJob list) result" where
  "loadDir_jobs ext walk =
     (case walk of
        Inl err \<Rightarrow> Fails err
      | Inr entries \<Rightarrow>
          let images = map fst (filter (\<lambda>(path, isDir). \<not> isDir \<and> isSupportedImage path) entries);
              totalImages = length images
          in if totalImages = 0 then Fails ''no images found''
             else Returns (int totalImages,
                    map (\<lambda>(i, path). \<lparr>djId = int i, djPath = path\<rparr>)
                      (enumerate 0 (sortNames ext images))))"

text \<open>\<^verbatim>\<open>fmt.Sprintf("%d", n)\<close> and \<^verbatim>\<open>fmt.Sprintf("%0wd", n)\<close> for a number that is not
  negative.\<close>

fun decimal :: "nat \<Rightarrow> string" where
  "decimal n =
     (if n < 10 then [char_of (48 + n)]
      else decimal (n div 10) @ [char_of (48 + n mod 10)])"

declare decimal.simps [simp del]

definition padded :: "nat \<Rightarrow> nat \<Rightarrow> string" where
  "padded w n = replicate (w - length (decimal n)) (CHR ''0'') @ decimal n"

text \<open>
  \<^verbatim>\<open>loadPdf\<close> of the loader (lines 393 to 428). The document is \<open>None\<close> when
  \<^verbatim>\<open>pdfread.Load\<close> gives \<^verbatim>\<open>nil\<close>, and else its pages, each with what
  \<^verbatim>\<open>pdfimage.Extract\<close> gives for it.
\<close>

definition loadPdf ::
  "'d externals \<Rightarrow> bool \<Rightarrow> (string + image) list option \<Rightarrow> (int \<times> tasks list) result" where
  "loadPdf ext Dry pdf =
     (case pdf of
        None \<Rightarrow> Fails (''can'' @ [CHR 0x27] @ ''t read pdf'')
      | Some pages \<Rightarrow>
          let totalImages = length pages;
              w = length (decimal totalImages)
          in Returns (int totalImages,
               map (\<lambda>(i, page).
                      let (img, err) =
                            (if \<not> Dry
                             then (case page of
                                     Inl e \<Rightarrow> (None, Some e)
                                   | Inr extracted \<Rightarrow> (Some extracted, None))
                             else (None, None));
                          name = ''page '' @ padded w (i + 1);
                          img = (if err \<noteq> None then Some (corruptedImage ext [] name) else img)
                      in \<lparr>tId = int i, tImage = img, tPath = [], tName = name, tError = err\<rparr>)
                   (enumerate 0 pages)))"

section \<open>Notions used in the statements\<close>

text \<open>What a task contributes to the output channel when its conversion returns.\<close>

definition emitted :: "'d externals \<Rightarrow> ImageOptions \<Rightarrow> imageTask \<Rightarrow> 'd Image list" where
  "emitted ext options img =
     (case convert_task ext options img of Returns rs \<Rightarrow> rs | _ \<Rightarrow> [])"



text \<open>
  The index \<open>i\<close> is the last position of \<open>name\<close> in the sorted list; a list of entries
  (index and name) that is indexed so; and indices that are the numbers below \<open>n\<close>, each
  once.
\<close>

definition last_position :: "string list \<Rightarrow> int \<Rightarrow> string \<Rightarrow> bool" where
  "last_position names i name =
     (0 \<le> i \<and> nat i < length names \<and> names ! nat i = name \<and>
      (\<forall>j. nat i < j \<and> j < length names \<longrightarrow> names ! j \<noteq> name))"

definition indexed_by :: "string list \<Rightarrow> (int \<times> string) list \<Rightarrow> bool" where
  "indexed_by names entries = list_all (\<lambda>(i, name). last_position names i name) entries"

definition dense :: "nat \<Rightarrow> int list \<Rightarrow> bool" where
  "dense n ids = (mset ids = mset (map int [0..<n]))"

text \<open>The sequential reader presents the listed entries, in their order, and every copy
  ends without an error; \<open>content\<close> gives the bytes of an entry.\<close>

definition presents :: "rarArchive \<Rightarrow> rarFile list \<Rightarrow> (rarFile \<Rightarrow> 8 word list) \<Rightarrow> bool" where
  "presents archive files content =
     (rOpenReader archive =
        Inr (map (\<lambda>f. Header (rName f) (rIsDir f) (content f) None) files))"





section \<open>Concrete inputs\<close>

text \<open>A one-pixel white bitmap, and a bitmap of four by two pixels whose first column
  is black and whose other columns are white.\<close>

definition blank1 :: image where
  "blank1 = \<lparr>Bounds = \<lparr>MinX = 0, MinY = 0, MaxX = 1, MaxY = 1\<rparr>, At = (\<lambda>x y. Gray 255)\<rparr>"

definition wide :: image where
  "wide = \<lparr>Bounds = \<lparr>MinX = 0, MinY = 0, MaxX = 4, MaxY = 2\<rparr>,
           At = (\<lambda>x y. if x = 0 then Gray 0 else Gray 255)\<rparr>"

text \<open>An environment: a decoder that knows two byte strings, filters that keep the
  bitmap (\<^verbatim>\<open>NewGift\<close>) and cut the left and the right half of a bitmap four pixels
  wide (\<^verbatim>\<open>NewGiftSplitDoublePage\<close>), and a sort by byte order.\<close>

definition demo_Decode :: "8 word list \<Rightarrow> string + image" where
  "demo_Decode bs =
     (if bs = [0] then Inr blank1
      else if bs = [1] then Inr wide
      else Inl ''image: unknown format'')"

fun byte_less :: "string \<Rightarrow> string \<Rightarrow> bool" where
  "byte_less [] [] = False"
| "byte_less [] (d # ds) = True"
| "byte_less (c # cs) [] = False"
| "byte_less (c # cs) (d # ds) =
     ((of_char c :: nat) < of_char d \<or> (c = d \<and> byte_less cs ds))"

fun insert_name :: "string \<Rightarrow> string list \<Rightarrow> string list" where
  "insert_name n [] = [n]"
| "insert_name n (m # ms) = (if byte_less m n then m # insert_name n ms else n # m # ms)"

fun demo_sort :: "string list \<Rightarrow> string list" where
  "demo_sort [] = []"
| "demo_sort (n # ns) = insert_name n (demo_sort ns)"

definition demo_ext :: "unit externals" where
  "demo_ext =
     \<lparr>Decode = demo_Decode,
      NewGift = (\<lambda>options. \<lparr>gBounds = (\<lambda>b. b), gDraw = At\<rparr>),
      NewGiftSplitDoublePage =
        (\<lambda>options. [giftCrop \<lparr>MinX = 0, MinY = 0, MaxX = 2, MaxY = 2\<rparr>,
                     giftCrop \<lparr>MinX = 2, MinY = 0, MaxX = 4, MaxY = 2\<rparr>]),
      newImageData = (\<lambda>id part dst quality. ()),
      sortNames = demo_sort,
      Clean = (\<lambda>path. path),
      Dir = (\<lambda>path. ''.''),
      ggRender = (\<lambda>txt x y. Gray 255)\<rparr>"

text \<open>A task that carries the bytes of \<open>wide\<close>, at index 1.\<close>

definition wide_task :: imageTask where
  "wide_task = \<lparr>TaskId = 1, Reader = [1], TaskPath = ''.'', Filename = ''p1.jpg''\<rparr>"

text \<open>A file table whose physical order is not the sorted order, one with the same
  name twice, and a task at index 0.\<close>

definition zip_ba :: "zipFile list" where
  "zip_ba = [\<lparr>zName = ''b.jpg'', zIsDir = False, zOpen = Inr [0]\<rparr>,
             \<lparr>zName = ''a.jpg'', zIsDir = False, zOpen = Inr [0]\<rparr>]"

definition zip_aa :: "zipFile list" where
  "zip_aa = [\<lparr>zName = ''a.jpg'', zIsDir = False, zOpen = Inr [0]\<rparr>,
             \<lparr>zName = ''a.jpg'', zIsDir = False, zOpen = Inr [1]\<rparr>]"

definition cover_task :: imageTask where
  "cover_task = \<lparr>TaskId = 0, Reader = [0], TaskPath = ''.'', Filename = ''p0.jpg''\<rparr>"



definition solid_archive :: rarArchive where
  "solid_archive =
     \<lparr>rList = Inr [\<lparr>rName = ''a.jpg'', rIsDir = False, rSolid = True, rOpen = Inr [0]\<rparr>],
      rOpenReader = Inr [Header ''a.jpg'' False [0] None]\<rparr>"

text \<open>The same archive without the solid flag; options with two workers; and an
  environment whose decoder gives a bitmap of the size of the fallback bitmap and whose
  \<^verbatim>\<open>NewGift\<close> cuts a bitmap down to the view.\<close>

definition plain_archive :: rarArchive where
  "plain_archive =
     \<lparr>rList = Inr [\<lparr>rName = ''a.jpg'', rIsDir = False, rSolid = False, rOpen = Inr [0]\<rparr>],
      rOpenReader = Inr [Header ''a.jpg'' False [0] None]\<rparr>"




definition demo_options :: "bool \<Rightarrow> ImageOptions" where
  "demo_options crop =
     \<lparr>Crop = crop, ViewWidth = 1, ViewHeight = 1, Quality = 85, NoBlankPage = False,
      HasCover = False, AutoSplitDoublePage = True, Workers = 1\<rparr>"

section \<open>Properties of the margin detector\<close>

lemma column_blank_iff:
  "column_blank img x y ymax \<longleftrightarrow> (\<forall>y'. y \<le> y' \<and> y' < ymax \<longrightarrow> colorIsBlank (At img x y'))"
proof (induction img x y ymax rule: column_blank.induct)
  case (1 img x y ymax)
  show ?case
  proof (cases "y < ymax")
    case False
    then show ?thesis by (subst column_blank.simps) auto
  next
    case True
    show ?thesis
    proof (cases "colorIsBlank (At img x y)")
      case False
      with True show ?thesis by (subst column_blank.simps) auto
    next
      case blank: True
      have "column_blank img x y ymax = column_blank img x (y + 1) ymax"
        using True blank by (subst column_blank.simps) simp
      also have "\<dots> \<longleftrightarrow> (\<forall>y'. y + 1 \<le> y' \<and> y' < ymax \<longrightarrow> colorIsBlank (At img x y'))"
        using "1.IH" True blank by simp
      also have "\<dots> \<longleftrightarrow> (\<forall>y'. y \<le> y' \<and> y' < ymax \<longrightarrow> colorIsBlank (At img x y'))"
      proof
        assume h: "\<forall>y'. y + 1 \<le> y' \<and> y' < ymax \<longrightarrow> colorIsBlank (At img x y')"
        show "\<forall>y'. y \<le> y' \<and> y' < ymax \<longrightarrow> colorIsBlank (At img x y')"
        proof (intro allI impI)
          fix y' assume "y \<le> y' \<and> y' < ymax"
          then show "colorIsBlank (At img x y')"
            using h blank by (cases "y' = y") auto
        qed
      qed auto
      finally show ?thesis .
    qed
  qed
qed

lemma row_blank_iff:
  "row_blank img y x xmax \<longleftrightarrow> (\<forall>x'. x \<le> x' \<and> x' < xmax \<longrightarrow> colorIsBlank (At img x' y))"
proof (induction img y x xmax rule: row_blank.induct)
  case (1 img y x xmax)
  show ?case
  proof (cases "x < xmax")
    case False
    then show ?thesis by (subst row_blank.simps) auto
  next
    case True
    show ?thesis
    proof (cases "colorIsBlank (At img x y)")
      case False
      with True show ?thesis by (subst row_blank.simps) auto
    next
      case blank: True
      have "row_blank img y x xmax = row_blank img y (x + 1) xmax"
        using True blank by (subst row_blank.simps) simp
      also have "\<dots> \<longleftrightarrow> (\<forall>x'. x + 1 \<le> x' \<and> x' < xmax \<longrightarrow> colorIsBlank (At img x' y))"
        using "1.IH" True blank by simp
      also have "\<dots> \<longleftrightarrow> (\<forall>x'. x \<le> x' \<and> x' < xmax \<longrightarrow> colorIsBlank (At img x' y))"
      proof
        assume h: "\<forall>x'. x + 1 \<le> x' \<and> x' < xmax \<longrightarrow> colorIsBlank (At img x' y)"
        show "\<forall>x'. x \<le> x' \<and> x' < xmax \<longrightarrow> colorIsBlank (At img x' y)"
        proof (intro allI impI)
          fix x' assume "x \<le> x' \<and> x' < xmax"
          then show "colorIsBlank (At img x' y)"
            using h blank by (cases "x' = x") auto
        qed
      qed auto
      finally show ?thesis .
    qed
  qed
qed

text \<open>Each loop changes one coordinate only. Started at its side of the rectangle, it
  moves that coordinate over blank lines and stops at the first line that is not
  blank, or at the far side.\<close>

lemma left_loop_frame:
  "MinY (left_loop img a x) = MinY a \<and> MaxX (left_loop img a x) = MaxX a \<and>
   MaxY (left_loop img a x) = MaxY a"
proof (induction img a x rule: left_loop.induct)
  case (1 img a x)
  show ?case
    using "1.IH" by (subst (1 2 3) left_loop.simps) auto
qed

lemma left_loop_props:
  assumes "x = MinX a"
  shows "MinX a \<le> MinX (left_loop img a x) \<and>
         (\<forall>c. MinX a \<le> c \<and> c < MinX (left_loop img a x) \<longrightarrow>
               c < MaxX a \<and> column_blank img c (MinY a) (MaxY a)) \<and>
         (MinX (left_loop img a x) < MaxX a \<longrightarrow>
            \<not> column_blank img (MinX (left_loop img a x)) (MinY a) (MaxY a))"
  using assms
proof (induction img a x rule: left_loop.induct)
  case (1 img a x)
  show ?case
  proof (cases "x < MaxX a \<and> column_blank img x (MinY a) (MaxY a)")
    case False
    then have "left_loop img a x = a" by (subst left_loop.simps) auto
    with False "1.prems" show ?thesis by auto
  next
    case True
    let ?a' = "a\<lparr>MinX := MinX a + 1\<rparr>"
    have eq: "left_loop img a x = left_loop img ?a' (x + 1)"
      using True by (subst left_loop.simps) simp
    have ih: "MinX ?a' \<le> MinX (left_loop img ?a' (x + 1)) \<and>
         (\<forall>c. MinX ?a' \<le> c \<and> c < MinX (left_loop img ?a' (x + 1)) \<longrightarrow>
               c < MaxX ?a' \<and> column_blank img c (MinY ?a') (MaxY ?a')) \<and>
         (MinX (left_loop img ?a' (x + 1)) < MaxX ?a' \<longrightarrow>
            \<not> column_blank img (MinX (left_loop img ?a' (x + 1))) (MinY ?a') (MaxY ?a'))"
      using "1.IH" True "1.prems" by simp
    have step: "\<And>c. MinX a \<le> c \<Longrightarrow> c = MinX a \<or> MinX a + 1 \<le> c" by linarith
    show ?thesis
      unfolding eq using ih True "1.prems" step by auto
  qed
qed


lemma up_loop_frame:
  "MinX (up_loop img a y) = MinX a \<and> MaxX (up_loop img a y) = MaxX a \<and>
   MaxY (up_loop img a y) = MaxY a"
proof (induction img a y rule: up_loop.induct)
  case (1 img a y)
  show ?case
    using "1.IH" by (subst (1 2 3) up_loop.simps) auto
qed

lemma up_loop_props:
  assumes "y = MinY a"
  shows "MinY a \<le> MinY (up_loop img a y) \<and>
         (\<forall>r. MinY a \<le> r \<and> r < MinY (up_loop img a y) \<longrightarrow>
               r < MaxY a \<and> row_blank img r (MinX a) (MaxX a)) \<and>
         (MinY (up_loop img a y) < MaxY a \<longrightarrow>
            \<not> row_blank img (MinY (up_loop img a y)) (MinX a) (MaxX a))"
  using assms
proof (induction img a y rule: up_loop.induct)
  case (1 img a y)
  show ?case
  proof (cases "y < MaxY a \<and> row_blank img y (MinX a) (MaxX a)")
    case False
    then have "up_loop img a y = a" by (subst up_loop.simps) auto
    with False "1.prems" show ?thesis by auto
  next
    case True
    let ?a' = "a\<lparr>MinY := MinY a + 1\<rparr>"
    have eq: "up_loop img a y = up_loop img ?a' (y + 1)"
      using True by (subst up_loop.simps) simp
    have ih: "MinY ?a' \<le> MinY (up_loop img ?a' (y + 1)) \<and>
         (\<forall>r. MinY ?a' \<le> r \<and> r < MinY (up_loop img ?a' (y + 1)) \<longrightarrow>
               r < MaxY ?a' \<and> row_blank img r (MinX ?a') (MaxX ?a')) \<and>
         (MinY (up_loop img ?a' (y + 1)) < MaxY ?a' \<longrightarrow>
            \<not> row_blank img (MinY (up_loop img ?a' (y + 1))) (MinX ?a') (MaxX ?a'))"
      using "1.IH" True "1.prems" by simp
    have step: "\<And>r. MinY a \<le> r \<Longrightarrow> r = MinY a \<or> MinY a + 1 \<le> r" by linarith
    show ?thesis
      unfolding eq using ih True "1.prems" step by auto
  qed
qed

lemma right_loop_frame:
  "MinX (right_loop img a x) = MinX a \<and> MinY (right_loop img a x) = MinY a \<and>
   MaxY (right_loop img a x) = MaxY a"
proof (induction img a x rule: right_loop.induct)
  case (1 img a x)
  show ?case
    using "1.IH" by (subst (1 2 3) right_loop.simps) auto
qed

lemma right_loop_props:
  assumes "x = MaxX a - 1"
  shows "MaxX (right_loop img a x) \<le> MaxX a \<and>
         (\<forall>c. MaxX (right_loop img a x) \<le> c \<and> c < MaxX a \<longrightarrow>
               MinX a \<le> c \<and> column_blank img c (MinY a) (MaxY a)) \<and>
         (MinX a < MaxX (right_loop img a x) \<longrightarrow>
            \<not> column_blank img (MaxX (right_loop img a x) - 1) (MinY a) (MaxY a))"
  using assms
proof (induction img a x rule: right_loop.induct)
  case (1 img a x)
  show ?case
  proof (cases "x \<ge> MinX a \<and> column_blank img x (MinY a) (MaxY a)")
    case False
    then have "right_loop img a x = a" by (subst right_loop.simps) auto
    with False "1.prems" show ?thesis by auto
  next
    case True
    let ?a' = "a\<lparr>MaxX := MaxX a - 1\<rparr>"
    have eq: "right_loop img a x = right_loop img ?a' (x - 1)"
      using True by (subst right_loop.simps) simp
    have ih: "MaxX (right_loop img ?a' (x - 1)) \<le> MaxX ?a' \<and>
         (\<forall>c. MaxX (right_loop img ?a' (x - 1)) \<le> c \<and> c < MaxX ?a' \<longrightarrow>
               MinX ?a' \<le> c \<and> column_blank img c (MinY ?a') (MaxY ?a')) \<and>
         (MinX ?a' < MaxX (right_loop img ?a' (x - 1)) \<longrightarrow>
            \<not> column_blank img (MaxX (right_loop img ?a' (x - 1)) - 1) (MinY ?a') (MaxY ?a'))"
      using "1.IH" True "1.prems" by simp
    have step: "\<And>c. c < MaxX a \<Longrightarrow> c = MaxX a - 1 \<or> c < MaxX a - 1" by linarith
    show ?thesis
      unfolding eq using ih True "1.prems" step by auto
  qed
qed

lemma bottom_loop_frame:
  "MinX (bottom_loop img a y) = MinX a \<and> MinY (bottom_loop img a y) = MinY a \<and>
   MaxX (bottom_loop img a y) = MaxX a"
proof (induction img a y rule: bottom_loop.induct)
  case (1 img a y)
  show ?case
    using "1.IH" by (subst (1 2 3) bottom_loop.simps) auto
qed

lemma bottom_loop_props:
  assumes "y = MaxY a - 1"
  shows "MaxY (bottom_loop img a y) \<le> MaxY a \<and>
         (\<forall>r. MaxY (bottom_loop img a y) \<le> r \<and> r < MaxY a \<longrightarrow>
               MinY a \<le> r \<and> row_blank img r (MinX a) (MaxX a)) \<and>
         (MinY a < MaxY (bottom_loop img a y) \<longrightarrow>
            \<not> row_blank img (MaxY (bottom_loop img a y) - 1) (MinX a) (MaxX a))"
  using assms
proof (induction img a y rule: bottom_loop.induct)
  case (1 img a y)
  show ?case
  proof (cases "y \<ge> MinY a \<and> row_blank img y (MinX a) (MaxX a)")
    case False
    then have "bottom_loop img a y = a" by (subst bottom_loop.simps) auto
    with False "1.prems" show ?thesis by auto
  next
    case True
    let ?a' = "a\<lparr>MaxY := MaxY a - 1\<rparr>"
    have eq: "bottom_loop img a y = bottom_loop img ?a' (y - 1)"
      using True by (subst bottom_loop.simps) simp
    have ih: "MaxY (bottom_loop img ?a' (y - 1)) \<le> MaxY ?a' \<and>
         (\<forall>r. MaxY (bottom_loop img ?a' (y - 1)) \<le> r \<and> r < MaxY ?a' \<longrightarrow>
               MinY ?a' \<le> r \<and> row_blank img r (MinX ?a') (MaxX ?a')) \<and>
         (MinY ?a' < MaxY (bottom_loop img ?a' (y - 1)) \<longrightarrow>
            \<not> row_blank img (MaxY (bottom_loop img ?a' (y - 1)) - 1) (MinX ?a') (MaxX ?a'))"
      using "1.IH" True "1.prems" by simp
    have step: "\<And>r. r < MaxY a \<Longrightarrow> r = MaxY a - 1 \<or> r < MaxY a - 1" by linarith
    show ?thesis
      unfolding eq using ih True "1.prems" step by auto
  qed
qed

lemmas scan_simps = left_loop.simps up_loop.simps right_loop.simps bottom_loop.simps
  column_blank.simps row_blank.simps colorIsBlank_def

lemma findMarging_all_blank:
  assumes blank: "all_blank img"
    and wx: "MinX (Bounds img) \<le> MaxX (Bounds img)"
    and wy: "MinY (Bounds img) \<le> MaxY (Bounds img)"
  shows "findMarging img =
           \<lparr>MinX = MaxX (Bounds img), MinY = MaxY (Bounds img),
            MaxX = MaxX (Bounds img), MaxY = MaxY (Bounds img)\<rparr>"
proof -
  let ?b = "Bounds img"
  define a1 where "a1 = left_loop img ?b (MinX ?b)"
  define a2 where "a2 = up_loop img a1 (MinY a1)"
  have B: "\<And>x y. MinX ?b \<le> x \<Longrightarrow> x < MaxX ?b \<Longrightarrow> MinY ?b \<le> y \<Longrightarrow> y < MaxY ?b
             \<Longrightarrow> colorIsBlank (At img x y)"
    using blank by (simp add: all_blank_def)
  have f1: "MinY a1 = MinY ?b" "MaxX a1 = MaxX ?b" "MaxY a1 = MaxY ?b"
    using left_loop_frame [of img ?b "MinX ?b"] by (simp_all add: a1_def)
  have p1: "MinX ?b \<le> MinX a1"
    "\<And>c. MinX ?b \<le> c \<Longrightarrow> c < MinX a1 \<Longrightarrow> c < MaxX ?b"
    "MinX a1 < MaxX ?b \<Longrightarrow> \<not> column_blank img (MinX a1) (MinY ?b) (MaxY ?b)"
    using left_loop_props [of "MinX ?b" ?b img] by (auto simp: a1_def)
  have "\<not> MinX a1 < MaxX ?b"
  proof
    assume lt: "MinX a1 < MaxX ?b"
    have "column_blank img (MinX a1) (MinY ?b) (MaxY ?b)"
      unfolding column_blank_iff using B p1(1) lt by simp
    with p1(3) lt show False by simp
  qed
  moreover have "\<not> MaxX ?b < MinX a1"
    using p1(2) [of "MaxX ?b"] wx by auto
  ultimately have L: "MinX a1 = MaxX ?b" by simp
  have f2: "MinX a2 = MaxX ?b" "MaxX a2 = MaxX ?b" "MaxY a2 = MaxY ?b"
    using up_loop_frame [of img a1 "MinY a1"] f1 L by (simp_all add: a2_def)
  have p2: "MinY ?b \<le> MinY a2"
    "\<And>r. MinY ?b \<le> r \<Longrightarrow> r < MinY a2 \<Longrightarrow> r < MaxY ?b"
    "MinY a2 < MaxY ?b \<Longrightarrow> \<not> row_blank img (MinY a2) (MinX a1) (MaxX ?b)"
    using up_loop_props [of "MinY a1" a1 img] f1 by (auto simp: a2_def)
  have "\<not> MinY a2 < MaxY ?b"
  proof
    assume lt: "MinY a2 < MaxY ?b"
    have "row_blank img (MinY a2) (MinX a1) (MaxX ?b)"
      unfolding row_blank_iff using L by auto
    with p2(3) lt show False by simp
  qed
  moreover have "\<not> MaxY ?b < MinY a2"
    using p2(2) [of "MaxY ?b"] wy by auto
  ultimately have T: "MinY a2 = MaxY ?b" by simp
  have a2_eq: "a2 = \<lparr>MinX = MaxX ?b, MinY = MaxY ?b, MaxX = MaxX ?b, MaxY = MaxY ?b\<rparr>"
    using f2 T by (cases a2) simp
  have r: "right_loop img a2 (MaxX a2 - 1) = a2"
    using f2 by (subst right_loop.simps) simp
  have bt: "bottom_loop img a2 (MaxY a2 - 1) = a2"
    using f2 T by (subst bottom_loop.simps) simp
  have "findMarging img = a2"
    by (simp add: findMarging_def Let_def a1_def [symmetric] a2_def [symmetric] r bt)
  with a2_eq show ?thesis by simp
qed

text \<open>
  Claim C5, as amended. For every bitmap with at least one pixel that is not blank inside
  its bounds, the rectangle \<^verbatim>\<open>findMarging\<close> returns has each side where the scan of that
  side alone, run on the original bounds, puts it: the four shrink amounts do not depend
  on one another. (On a bitmap without such a pixel the left and top scans consume the
  whole rectangle and the right and bottom scans, which read the shrunk rectangle,
  shrink nothing; see the counterexample.)
\<close>

theorem findMarging_sides_independent:
  assumes content: "has_content img"
  shows "findMarging img = independentMargin img"
proof -
  let ?b = "Bounds img"
  obtain px py where px: "MinX ?b \<le> px" "px < MaxX ?b"
    and py: "MinY ?b \<le> py" "py < MaxY ?b"
    and dark: "\<not> colorIsBlank (At img px py)"
    using content by (auto simp: has_content_def)
  define a1 where "a1 = left_loop img ?b (MinX ?b)"
  define a2 where "a2 = up_loop img a1 (MinY a1)"
  define a3 where "a3 = right_loop img a2 (MaxX a2 - 1)"
  define a4 where "a4 = bottom_loop img a3 (MaxY a3 - 1)"
  define T0 where "T0 = MinY (up_loop img ?b (MinY ?b))"
  define R0 where "R0 = MaxX (right_loop img ?b (MaxX ?b - 1))"
  define D0 where "D0 = MaxY (bottom_loop img ?b (MaxY ?b - 1))"
  define L where "L = MinX a1"
  define T where "T = MinY a2"
  define R where "R = MaxX a3"
  define D where "D = MaxY a4"
  \<comment> \<open>the left scan\<close>
  have f1: "MinY a1 = MinY ?b" "MaxX a1 = MaxX ?b" "MaxY a1 = MaxY ?b"
    using left_loop_frame [of img ?b "MinX ?b"] by (simp_all add: a1_def)
  have p1: "MinX ?b \<le> L"
    "\<And>c y. MinX ?b \<le> c \<Longrightarrow> c < L \<Longrightarrow> MinY ?b \<le> y \<Longrightarrow> y < MaxY ?b
        \<Longrightarrow> colorIsBlank (At img c y)"
    using left_loop_props [of "MinX ?b" ?b img]
    by (auto simp: a1_def L_def column_blank_iff)
  have "\<not> px < L"
    using p1(2) [of px py] px py dark by blast
  then have Lpx: "L \<le> px" by simp
  \<comment> \<open>the top scan, on the shrunk and on the original rectangle\<close>
  have f2: "MinX a2 = L" "MaxX a2 = MaxX ?b" "MaxY a2 = MaxY ?b"
    using up_loop_frame [of img a1 "MinY a1"] f1 by (simp_all add: a2_def L_def)
  have p2: "MinY ?b \<le> T"
    "\<And>r x. MinY ?b \<le> r \<Longrightarrow> r < T \<Longrightarrow> L \<le> x \<Longrightarrow> x < MaxX ?b
        \<Longrightarrow> colorIsBlank (At img x r)"
    "\<And>r. MinY ?b \<le> r \<Longrightarrow> r < T \<Longrightarrow> r < MaxY ?b"
    "T < MaxY ?b \<Longrightarrow> \<exists>x. L \<le> x \<and> x < MaxX ?b \<and> \<not> colorIsBlank (At img x T)"
    using up_loop_props [of "MinY a1" a1 img] f1
    by (auto simp: a2_def T_def L_def row_blank_iff)
  have q2: "MinY ?b \<le> T0"
    "\<And>r x. MinY ?b \<le> r \<Longrightarrow> r < T0 \<Longrightarrow> MinX ?b \<le> x \<Longrightarrow> x < MaxX ?b
        \<Longrightarrow> colorIsBlank (At img x r)"
    "\<And>r. MinY ?b \<le> r \<Longrightarrow> r < T0 \<Longrightarrow> r < MaxY ?b"
    "T0 < MaxY ?b \<Longrightarrow> \<exists>x. MinX ?b \<le> x \<and> x < MaxX ?b \<and> \<not> colorIsBlank (At img x T0)"
    using up_loop_props [of "MinY ?b" ?b img]
    by (auto simp: T0_def row_blank_iff)
  have "\<not> py < T"
    using p2(2) [of py px] px py dark Lpx by blast
  then have Tpy: "T \<le> py" by simp
  have "\<not> py < T0"
    using q2(2) [of py px] px py dark by blast
  then have T0py: "T0 \<le> py" by simp
  have "\<not> T < T0"
  proof
    assume lt: "T < T0"
    then have "T < MaxY ?b" using T0py py by simp
    then obtain x where x: "L \<le> x" "x < MaxX ?b" "\<not> colorIsBlank (At img x T)"
      using p2(4) by blast
    then show False using q2(2) [of T x] p2(1) lt p1(1) by auto
  qed
  moreover have "\<not> T0 < T"
  proof
    assume lt: "T0 < T"
    then have "T0 < MaxY ?b" using Tpy py by simp
    then obtain x where x: "MinX ?b \<le> x" "x < MaxX ?b" "\<not> colorIsBlank (At img x T0)"
      using q2(4) by blast
    show False
    proof (cases "x < L")
      case True
      then show ?thesis using p1(2) [of x T0] x q2(1) \<open>T0 < MaxY ?b\<close> by auto
    next
      case False
      then show ?thesis using p2(2) [of T0 x] x q2(1) lt by auto
    qed
  qed
  ultimately have TT: "T = T0" by simp
  \<comment> \<open>every pixel left of \<open>L\<close> or above \<open>T\<close> is blank\<close>
  have above: "\<And>x r. MinX ?b \<le> x \<Longrightarrow> x < MaxX ?b \<Longrightarrow> MinY ?b \<le> r \<Longrightarrow> r < T
        \<Longrightarrow> colorIsBlank (At img x r)"
    using q2(2) TT by simp
  \<comment> \<open>the right scan\<close>
  have f3: "MinX a3 = L" "MinY a3 = T" "MaxY a3 = MaxY ?b"
    using right_loop_frame [of img a2 "MaxX a2 - 1"] f2 by (simp_all add: a3_def T_def)
  have p3: "R \<le> MaxX ?b"
    "\<And>c y. R \<le> c \<Longrightarrow> c < MaxX ?b \<Longrightarrow> T \<le> y \<Longrightarrow> y < MaxY ?b
        \<Longrightarrow> colorIsBlank (At img c y)"
    "L < R \<Longrightarrow> \<exists>y. T \<le> y \<and> y < MaxY ?b \<and> \<not> colorIsBlank (At img (R - 1) y)"
    using right_loop_props [of "MaxX a2 - 1" a2 img] f2
    by (auto simp: a3_def R_def T_def column_blank_iff)
  have q3: "R0 \<le> MaxX ?b"
    "\<And>c y. R0 \<le> c \<Longrightarrow> c < MaxX ?b \<Longrightarrow> MinY ?b \<le> y \<Longrightarrow> y < MaxY ?b
        \<Longrightarrow> colorIsBlank (At img c y)"
    "\<And>c. R0 \<le> c \<Longrightarrow> c < MaxX ?b \<Longrightarrow> MinX ?b \<le> c"
    "MinX ?b < R0 \<Longrightarrow>
        \<exists>y. MinY ?b \<le> y \<and> y < MaxY ?b \<and> \<not> colorIsBlank (At img (R0 - 1) y)"
    using right_loop_props [of "MaxX ?b - 1" ?b img]
    by (auto simp: R0_def column_blank_iff)
  have "\<not> R \<le> px"
    using p3(2) [of px py] px py dark Tpy by blast
  then have pxR: "px < R" by simp
  have "\<not> R0 \<le> px"
    using q3(2) [of px py] px py dark by blast
  then have pxR0: "px < R0" by simp
  have "\<not> R < R0"
  proof
    assume lt: "R < R0"
    then have "MinX ?b < R0" using pxR px by simp
    then obtain y where y: "MinY ?b \<le> y" "y < MaxY ?b" "\<not> colorIsBlank (At img (R0 - 1) y)"
      using q3(4) by blast
    show False
    proof (cases "y < T")
      case True
      then show ?thesis using above [of "R0 - 1" y] y lt pxR px q3(1) by auto
    next
      case False
      then show ?thesis using p3(2) [of "R0 - 1" y] y lt q3(1) by auto
    qed
  qed
  moreover have "\<not> R0 < R"
  proof
    assume lt: "R0 < R"
    have "L < R" using Lpx pxR by simp
    then obtain y where y: "T \<le> y" "y < MaxY ?b" "\<not> colorIsBlank (At img (R - 1) y)"
      using p3(3) by blast
    then show False using q3(2) [of "R - 1" y] lt p3(1) p2(1) by auto
  qed
  ultimately have RR: "R = R0" by simp
  \<comment> \<open>the bottom scan\<close>
  have f4: "MinX a4 = L" "MinY a4 = T" "MaxX a4 = R"
    using bottom_loop_frame [of img a3 "MaxY a3 - 1"] f3 by (simp_all add: a4_def R_def)
  have p4: "D \<le> MaxY ?b"
    "\<And>r x. D \<le> r \<Longrightarrow> r < MaxY ?b \<Longrightarrow> L \<le> x \<Longrightarrow> x < R
        \<Longrightarrow> colorIsBlank (At img x r)"
    "T < D \<Longrightarrow> \<exists>x. L \<le> x \<and> x < R \<and> \<not> colorIsBlank (At img x (D - 1))"
    using bottom_loop_props [of "MaxY a3 - 1" a3 img] f3
    by (auto simp: a4_def D_def R_def row_blank_iff)
  have q4: "D0 \<le> MaxY ?b"
    "\<And>r x. D0 \<le> r \<Longrightarrow> r < MaxY ?b \<Longrightarrow> MinX ?b \<le> x \<Longrightarrow> x < MaxX ?b
        \<Longrightarrow> colorIsBlank (At img x r)"
    "MinY ?b < D0 \<Longrightarrow>
        \<exists>x. MinX ?b \<le> x \<and> x < MaxX ?b \<and> \<not> colorIsBlank (At img x (D0 - 1))"
    using bottom_loop_props [of "MaxY ?b - 1" ?b img]
    by (auto simp: D0_def row_blank_iff)
  have "\<not> D \<le> py"
    using p4(2) [of py px] px py dark Lpx pxR by blast
  then have pyD: "py < D" by simp
  have "\<not> D0 \<le> py"
    using q4(2) [of py px] px py dark by blast
  then have pyD0: "py < D0" by simp
  have "\<not> D < D0"
  proof
    assume lt: "D < D0"
    then have "MinY ?b < D0" using pyD py by simp
    then obtain x where x: "MinX ?b \<le> x" "x < MaxX ?b" "\<not> colorIsBlank (At img x (D0 - 1))"
      using q4(3) by blast
    have row: "T \<le> D0 - 1" "D0 - 1 < MaxY ?b" "MinY ?b \<le> D0 - 1"
      using lt pyD Tpy q4(1) p2(1) by simp_all
    show False
    proof (cases "x < L")
      case True
      then show ?thesis using p1(2) [of x "D0 - 1"] x row by auto
    next
      case False
      show ?thesis
      proof (cases "x < R")
        case True
        then show ?thesis using p4(2) [of "D0 - 1" x] x \<open>\<not> x < L\<close> lt row by auto
      next
        case False
        then show ?thesis using p3(2) [of x "D0 - 1"] x row by auto
      qed
    qed
  qed
  moreover have "\<not> D0 < D"
  proof
    assume lt: "D0 < D"
    have "T < D" using Tpy pyD by simp
    then obtain x where x: "L \<le> x" "x < R" "\<not> colorIsBlank (At img x (D - 1))"
      using p4(3) by blast
    then show False using q4(2) [of "D - 1" x] lt p4(1) p3(1) p1(1) by auto
  qed
  ultimately have DD: "D = D0" by simp
  have "findMarging img = a4"
    by (simp add: findMarging_def Let_def a1_def [symmetric] a2_def [symmetric]
          a3_def [symmetric] a4_def [symmetric])
  moreover have "independentMargin img = \<lparr>MinX = L, MinY = T0, MaxX = R0, MaxY = D0\<rparr>"
    by (simp add: independentMargin_def Let_def L_def a1_def T0_def R0_def D0_def)
  moreover have "a4 = \<lparr>MinX = L, MinY = T, MaxX = R, MaxY = D\<rparr>"
    using f4 by (cases a4) (simp add: D_def)
  ultimately show ?thesis using TT RR DD by simp
qed

text \<open>The hypothesis holds for the four by two bitmap with a black first column.\<close>

theorem findMarging_sides_independent_witness:
  "has_content wide \<and> findMarging wide = independentMargin wide"
proof -
  have "\<not> colorIsBlank (At wide 0 0)"
    by (simp add: wide_def colorIsBlank_def)
  then have h: "has_content wide"
    unfolding has_content_def by (intro bexI [of _ 0]) (simp_all add: wide_def)
  from findMarging_sides_independent [OF h] h show ?thesis by simp
qed

text \<open>On the white one-pixel bitmap the right and bottom sides stay where they are,
  while their scans on the original bounds would move them to 0.\<close>

theorem findMarging_sides_counterexample:
  "findMarging blank1 = \<lparr>MinX = 1, MinY = 1, MaxX = 1, MaxY = 1\<rparr> \<and>
   independentMargin blank1 = \<lparr>MinX = 1, MinY = 1, MaxX = 0, MaxY = 0\<rparr>"
  by (simp add: findMarging_def independentMargin_def blank1_def scan_simps)

text \<open>
  Claim C6, as amended. For a bitmap whose every pixel is blank, \<^verbatim>\<open>findMarging\<close> returns
  the rectangle collapsed onto the \<^verbatim>\<open>Max\<close> corner of the bounds, of area zero; with
  the crop option on, the crop stage then replaces the bitmap by one with the empty
  bounds (0,0)-(0,0). The original bounds are not kept.
\<close>

theorem blank_crop:
  assumes "all_blank img"
    and "MinX (Bounds img) \<le> MaxX (Bounds img)"
    and "MinY (Bounds img) \<le> MaxY (Bounds img)"
    and "Crop options"
  shows "findMarging img =
           \<lparr>MinX = MaxX (Bounds img), MinY = MaxY (Bounds img),
            MaxX = MaxX (Bounds img), MaxY = MaxY (Bounds img)\<rparr> \<and>
         Dx (findMarging img) * Dy (findMarging img) = 0 \<and>
         Empty (findMarging img) \<and>
         Bounds (crop_stage options img) = ZR"
proof -
  have m: "findMarging img =
           \<lparr>MinX = MaxX (Bounds img), MinY = MaxY (Bounds img),
            MaxX = MaxX (Bounds img), MaxY = MaxY (Bounds img)\<rparr>"
    using assms(1-3) by (rule findMarging_all_blank)
  have i: "Intersect (Bounds img) (findMarging img) = ZR"
    unfolding m by (simp add: Intersect_def Let_def Empty_def)
  show ?thesis
    using assms(4) m i
    by (simp add: crop_stage_def apply_gift_def giftCrop_def Dx_def Dy_def Empty_def ZR_def)
qed

theorem blank_crop_witness:
  "all_blank blank1 \<and> Crop (demo_options True) \<and>
   findMarging blank1 = \<lparr>MinX = 1, MinY = 1, MaxX = 1, MaxY = 1\<rparr> \<and>
   Bounds (crop_stage (demo_options True) blank1) = ZR"
proof -
  have h: "all_blank blank1" by (simp add: all_blank_def blank1_def colorIsBlank_def)
  have c: "Crop (demo_options True)" by (simp add: demo_options_def)
  have "MinX (Bounds blank1) \<le> MaxX (Bounds blank1)" "MinY (Bounds blank1) \<le> MaxY (Bounds blank1)"
    by (simp_all add: blank1_def)
  from blank_crop [OF h this c] h c show ?thesis by (simp add: blank1_def)
qed

text \<open>The white one-pixel bitmap loses its bounds in the crop stage.\<close>

theorem blank_crop_counterexample:
  "all_blank blank1 \<and>
   Bounds blank1 = \<lparr>MinX = 0, MinY = 0, MaxX = 1, MaxY = 1\<rparr> \<and>
   Bounds (crop_stage (demo_options True) blank1) = \<lparr>MinX = 0, MinY = 0, MaxX = 0, MaxY = 0\<rparr>"
  by (simp add: all_blank_def crop_stage_def demo_options_def apply_gift_def giftCrop_def
      findMarging_def blank1_def scan_simps Intersect_def Empty_def ZR_def Dx_def Dy_def)

section \<open>Properties of the conversion of one task\<close>

lemma map_enumerate_index:
  "map (\<lambda>x. f (fst x)) (enumerate n gs) = map f [n..<n + length gs]"
proof (induction gs arbitrary: n)
  case Nil
  show ?case by simp
next
  case (Cons g gs)
  have "[n..<n + length (g # gs)] = n # [Suc n..<Suc n + length gs]"
    by (subst upt_rec) simp
  with Cons [of "Suc n"] show ?case by simp
qed

lemma convert_task_decoded:
  assumes "Decode ext (Reader img) = Inr decoded"
  shows "\<exists>whole halves.
     convert_task ext options img = Returns (whole # halves) \<and>
     ImgId whole = TaskId img \<and> Part whole = 0 \<and> IsCover whole = (TaskId img = 0) \<and>
     map ImgId halves = replicate (length halves) (TaskId img) \<and>
     map IsCover halves = replicate (length halves) False \<and>
     map Part halves = map (\<lambda>i. int i + 1) [0..<length halves] \<and>
     length halves =
       (if split_condition options img (crop_stage options decoded)
        then length (NewGiftSplitDoublePage ext options) else 0)"
proof (cases "split_condition options img (crop_stage options decoded)")
  case False
  with assms show ?thesis
    by (simp add: convert_task_def Let_def)
next
  case True
  show ?thesis
    using assms True
    by (simp add: convert_task_def Let_def comp_def case_prod_unfold map_replicate_const
        map_enumerate_index [of "\<lambda>i. int i + 1" 0, simplified])
qed

lemma convert_task_failed:
  assumes "Decode ext (Reader img) = Inl err"
  shows "convert_task ext options img = Exits 1"
  using assms by (simp add: convert_task_def)

lemma emitted_pages:
  assumes "r \<in> set (emitted ext options img)"
  shows "ImgId r = TaskId img \<and> (IsCover r \<longleftrightarrow> ImgId r = 0 \<and> Part r = 0) \<and> 0 \<le> Part r"
proof (cases "Decode ext (Reader img)")
  case (Inl err)
  then show ?thesis using assms by (simp add: emitted_def convert_task_failed)
next
  case (Inr decoded)
  from convert_task_decoded [OF Inr, of options] obtain whole halves where
    c: "convert_task ext options img = Returns (whole # halves)"
    and w: "ImgId whole = TaskId img" "Part whole = 0" "IsCover whole = (TaskId img = 0)"
    and hi: "map ImgId halves = replicate (length halves) (TaskId img)"
    and hc: "map IsCover halves = replicate (length halves) False"
    and hp: "map Part halves = map (\<lambda>i. int i + 1) [0..<length halves]"
    by blast
  from assms c have "r = whole \<or> r \<in> set halves" by (auto simp: emitted_def)
  then show ?thesis
  proof
    assume "r = whole" with w show ?thesis by simp
  next
    assume "r \<in> set halves"
    then obtain k where k: "k < length halves" "r = halves ! k"
      by (auto simp: in_set_conv_nth)
    have "ImgId r = TaskId img"
      using k arg_cong [OF hi, of "\<lambda>xs. xs ! k"] by simp
    moreover have "IsCover r = False"
      using k arg_cong [OF hc, of "\<lambda>xs. xs ! k"] by simp
    moreover have "Part r = int k + 1"
      using k arg_cong [OF hp, of "\<lambda>xs. xs ! k"] by simp
    ultimately show ?thesis by simp
  qed
qed

lemmas demo_simps = demo_ext_def demo_options_def demo_Decode_def wide_def blank1_def
  convert_task_def crop_stage_def split_condition_def apply_gift_def giftCrop_def
  Intersect_def Empty_def ZR_def Dx_def Dy_def findMarging_def scan_simps Let_def

text \<open>
  Claim C3, as amended. Whether a page is split is decided on the bitmap as it stands
  after the optional crop, not on the original: results with a part other than 0 are
  emitted exactly when splitting is enabled, the page is not the cover, and the width of
  the bitmap after the crop exceeds its height and the view height, and its height exceeds
  the view width (and there is a split filter at all). With the crop option off the
  bitmap after the crop stage is the original one.
\<close>

theorem split_after_crop:
  assumes "Decode ext (Reader img) = Inr decoded"
  shows "(\<exists>rs. convert_task ext options img = Returns rs \<and>
           ((\<exists>r \<in> set rs. Part r \<noteq> 0) \<longleftrightarrow>
              split_condition options img (crop_stage options decoded) \<and>
              NewGiftSplitDoublePage ext options \<noteq> [])) \<and>
         (\<not> Crop options \<longrightarrow> crop_stage options decoded = decoded)"
proof -
  from convert_task_decoded [OF assms, of options] obtain whole halves where
    c: "convert_task ext options img = Returns (whole # halves)"
    and w: "Part whole = 0"
    and hp: "map Part halves = map (\<lambda>i. int i + 1) [0..<length halves]"
    and len: "length halves =
       (if split_condition options img (crop_stage options decoded)
        then length (NewGiftSplitDoublePage ext options) else 0)"
    by blast
  have pos: "\<forall>r \<in> set halves. Part r \<noteq> 0"
  proof
    fix r assume "r \<in> set halves"
    then obtain k where k: "k < length halves" "r = halves ! k"
      by (auto simp: in_set_conv_nth)
    then have "Part r = int k + 1"
      using arg_cong [OF hp, of "\<lambda>xs. xs ! k"] by simp
    then show "Part r \<noteq> 0" by simp
  qed
  have "(\<exists>r \<in> set (whole # halves). Part r \<noteq> 0) \<longleftrightarrow> halves \<noteq> []"
    using w pos by (cases halves) auto
  also have "\<dots> \<longleftrightarrow> split_condition options img (crop_stage options decoded) \<and>
              NewGiftSplitDoublePage ext options \<noteq> []"
    using len by (auto split: if_splits)
  finally show ?thesis using c by (simp add: crop_stage_def)
qed

theorem split_after_crop_witness:
  "Decode demo_ext (Reader wide_task) = Inr wide \<and>
   (\<exists>rs. convert_task demo_ext (demo_options False) wide_task = Returns rs \<and>
      ((\<exists>r \<in> set rs. Part r \<noteq> 0) \<longleftrightarrow>
         split_condition (demo_options False) wide_task (crop_stage (demo_options False) wide) \<and>
         NewGiftSplitDoublePage demo_ext (demo_options False) \<noteq> []))"
proof -
  have d: "Decode demo_ext (Reader wide_task) = Inr wide"
    by (simp add: demo_ext_def demo_Decode_def wide_task_def)
  from split_after_crop [OF d, of "demo_options False"] d show ?thesis by blast
qed

text \<open>
  The bitmap \<open>wide\<close> passes the test on its original four by two pixels, the crop
  leaves one column of it, and no half is emitted.
\<close>

theorem split_after_crop_counterexample:
  "Decode demo_ext (Reader wide_task) = Inr wide \<and>
   split_condition (demo_options True) wide_task wide \<and>
   map Part (emitted demo_ext (demo_options True) wide_task) = [0]"
  by (simp add: emitted_def wide_task_def demo_simps enumerate_eq_zip)




section \<open>Properties of the worker pool\<close>

text \<open>
  Whatever the schedule does, no result is lost or made twice: the results received,
  those the workers still hold and those the tasks still queued will give are together
  what all tasks give.
\<close>

lemma mset_concat_update:
  "w < length xs \<Longrightarrow>
     mset (concat (xs[w := ys])) + mset (xs ! w) = mset (concat xs) + mset ys"
proof (induction xs arbitrary: w)
  case Nil
  then show ?case by simp
next
  case (Cons x xs)
  show ?case
  proof (cases w)
    case 0
    then show ?thesis by simp
  next
    case (Suc v)
    with Cons.prems have "v < length xs" by simp
    from Cons.IH [OF this] Suc show ?thesis by (simp add: ac_simps)
  qed
qed

lemma worker_step_keeps:
  assumes "worker_step ext options w p = Returns p'"
  shows "length (busy p') = length (busy p) \<and>
         mset (received p') + mset (concat (busy p')) +
           mset (concat (map (emitted ext options) (imageInput p'))) =
         mset (received p) + mset (concat (busy p)) +
           mset (concat (map (emitted ext options) (imageInput p)))"
proof (cases "w < length (busy p)")
  case False
  with assms show ?thesis by (simp add: worker_step_def)
next
  case w: True
  show ?thesis
  proof (cases "busy p ! w")
    case (Cons r rs)
    with assms w have p': "p' = p\<lparr>busy := (busy p)[w := rs], received := received p @ [r]\<rparr>"
      by (simp add: worker_step_def)
    from mset_concat_update [OF w, of rs] Cons
    have "mset (concat ((busy p)[w := rs])) + {#r#} = mset (concat (busy p))"
      by simp
    then show ?thesis by (simp add: p' ac_simps)
  next
    case Nil
    show ?thesis
    proof (cases "imageInput p")
      case empty: Nil
      with assms w Nil show ?thesis by (simp add: worker_step_def)
    next
      case (Cons img rest)
      from assms w Nil Cons obtain rs where
        c: "convert_task ext options img = Returns rs"
        and p': "p' = p\<lparr>imageInput := rest, busy := (busy p)[w := rs]\<rparr>"
        by (auto simp: worker_step_def split: result.splits)
      from c have e: "emitted ext options img = rs" by (simp add: emitted_def)
      from mset_concat_update [OF w, of rs] Nil
      have "mset (concat ((busy p)[w := rs])) = mset (concat (busy p)) + mset rs"
        by simp
      then show ?thesis by (simp add: p' Cons e ac_simps)
    qed
  qed
qed

lemma run_pool_keeps:
  assumes "run_pool ext options schedule p = Returns p'"
  shows "length (busy p') = length (busy p) \<and>
         mset (received p') + mset (concat (busy p')) +
           mset (concat (map (emitted ext options) (imageInput p'))) =
         mset (received p) + mset (concat (busy p)) +
           mset (concat (map (emitted ext options) (imageInput p)))"
  using assms
proof (induction schedule arbitrary: p)
  case Nil
  then show ?case by simp
next
  case (Cons w ws)
  from Cons.prems obtain q where
    q: "worker_step ext options w p = Returns q" and r: "run_pool ext options ws q = Returns p'"
    by (auto split: result.splits)
  from worker_step_keeps [OF q] Cons.IH [OF r] show ?case by simp
qed

lemma run_pool_no_worker:
  assumes "busy p = []"
  shows "run_pool ext options schedule p = Returns p"
  using assms by (induction schedule) (simp_all add: worker_step_def)

lemma run_pool_finished:
  assumes run: "run_pool ext options schedule
                  \<lparr>imageInput = tasks, busy = replicate k [], received = []\<rparr> = Returns p"
    and fin: "finished p"
    and ne: "received p \<noteq> []"
  shows "mset (received p) = mset (concat (map (emitted ext options) tasks))"
proof -
  let ?p0 = "\<lparr>imageInput = tasks, busy = replicate k [], received = []\<rparr> :: 'a pool"
  from run_pool_keeps [OF run]
  have len: "length (busy p) = k"
    and all: "mset (received p) + mset (concat (busy p)) +
           mset (concat (map (emitted ext options) (imageInput p))) =
           mset (concat (map (emitted ext options) tasks))"
    by simp_all
  have "busy p \<noteq> []"
  proof
    assume "busy p = []"
    with len have "busy ?p0 = []" by simp
    from run_pool_no_worker [OF this, of ext options schedule] run have "p = ?p0" by simp
    with ne show False by simp
  qed
  then obtain b bs where "busy p = b # bs" by (cases "busy p") auto
  with fin have "imageInput p = []" and "\<forall>b \<in> set (busy p). b = []"
    by (auto simp: finished_def)
  then have "concat (busy p) = []" "imageInput p = []" by simp_all
  with all show ?thesis by simp
qed

lemma LoadImages_run:
  assumes "LoadImages ext options False (Returns (n, tasks)) schedule = Some (Returns images)"
  shows "\<exists>arrived. images = filter (keep_image options) arrived \<and>
             mset arrived = mset (concat (map (emitted ext options) tasks))"
proof -
  from assms obtain p where
    run: "run_pool ext options schedule
            \<lparr>imageInput = tasks, busy = replicate (nat (Workers options)) [],
             received = []\<rparr> = Returns p"
    and fin: "finished p"
    and im: "images = filter (keep_image options) (received p)"
    and ne: "images \<noteq> []"
    by (auto simp: LoadImages_def Let_def split: result.splits if_splits)
  from im ne have "received p \<noteq> []" by auto
  from run_pool_finished [OF run fin this]
  have "mset (received p) = mset (concat (map (emitted ext options) tasks))" .
  with im show ?thesis by blast
qed

text \<open>
  A schedule that finishes exists whenever there is a worker and every task decodes:
  the first worker alone receives every task and sends its results. The pages then come
  back in the order of the tasks.
\<close>

lemma worker_sends:
  assumes "0 < length (busy p)" and "busy p ! 0 = b"
  shows "run_pool ext options (replicate (length b) 0 @ ws) p =
         run_pool ext options ws (p\<lparr>busy := (busy p)[0 := []], received := received p @ b\<rparr>)"
  using assms
proof (induction b arbitrary: p)
  case Nil
  then have "(busy p)[0 := []] = busy p" by (metis list_update_id)
  then show ?case by simp
next
  case (Cons r rs)
  let ?q = "p\<lparr>busy := (busy p)[0 := rs], received := received p @ [r]\<rparr>"
  have s: "worker_step ext options 0 p = Returns ?q"
    using Cons.prems by (simp add: worker_step_def)
  have "0 < length (busy ?q)" "busy ?q ! 0 = rs" using Cons.prems by simp_all
  from Cons.IH [OF this] s show ?case by simp
qed

lemma worker_receives:
  assumes "0 < length (busy p)" and "busy p ! 0 = []"
    and "imageInput p = img # rest" and "convert_task ext options img = Returns rs"
  shows "run_pool ext options (0 # ws) p =
         run_pool ext options ws (p\<lparr>imageInput := rest, busy := (busy p)[0 := rs]\<rparr>)"
  using assms by (simp add: worker_step_def)

lemma one_worker_runs:
  assumes "0 < length (busy p)" and "busy p ! 0 = []"
    and "\<forall>img \<in> set (imageInput p). \<exists>rs. convert_task ext options img = Returns rs"
  shows "run_pool ext options
           (replicate (length (imageInput p) +
                       length (concat (map (emitted ext options) (imageInput p)))) 0) p =
         Returns (p\<lparr>imageInput := [],
                    received := received p @ concat (map (emitted ext options) (imageInput p))\<rparr>)"
  using assms
proof (induction "imageInput p" arbitrary: p)
  case Nil
  then show ?case by simp
next
  case (Cons img rest)
  from Cons.hyps(2) [symmetric] Cons.prems(3) obtain rs where
    c: "convert_task ext options img = Returns rs" by auto
  then have e: "emitted ext options img = rs" by (simp add: emitted_def)
  let ?q = "p\<lparr>imageInput := rest, busy := (busy p)[0 := rs]\<rparr>"
  let ?r = "?q\<lparr>busy := (busy ?q)[0 := []], received := received ?q @ rs\<rparr>"
  let ?n = "length rest + length (concat (map (emitted ext options) rest))"
  have sched: "replicate (length (imageInput p) +
                 length (concat (map (emitted ext options) (imageInput p)))) (0::nat) =
               0 # (replicate (length rs) 0 @ replicate ?n 0)"
    by (simp add: Cons.hyps(2) [symmetric] e replicate_add [symmetric])
  have q: "0 < length (busy ?q)" "busy ?q ! 0 = rs" using Cons.prems(1) by simp_all
  have r: "rest = imageInput ?r" "0 < length (busy ?r)" "busy ?r ! 0 = []"
    "\<forall>img \<in> set (imageInput ?r). \<exists>rs. convert_task ext options img = Returns rs"
    using Cons.prems Cons.hyps(2) [symmetric] by simp_all
  have "run_pool ext options (0 # (replicate (length rs) 0 @ replicate ?n 0)) p =
        run_pool ext options (replicate (length rs) 0 @ replicate ?n 0) ?q"
    using Cons.prems(1,2) Cons.hyps(2) [symmetric] c by (rule worker_receives)
  also have "\<dots> = run_pool ext options (replicate ?n 0) ?r"
    using q by (rule worker_sends)
  also have "\<dots> = Returns (?r\<lparr>imageInput := [],
                    received := received ?r @ concat (map (emitted ext options) (imageInput ?r))\<rparr>)"
    using Cons.hyps(1) [OF r] by simp
  finally have chain: "run_pool ext options (0 # (replicate (length rs) 0 @ replicate ?n 0)) p =
        Returns (?r\<lparr>imageInput := [],
                    received := received ?r @ concat (map (emitted ext options) (imageInput ?r))\<rparr>)" .
  have idle: "(busy p)[0 := []] = busy p" using Cons.prems(2) by (metis list_update_id)
  have same: "?r\<lparr>imageInput := [],
                 received := received ?r @ concat (map (emitted ext options) (imageInput ?r))\<rparr> =
              p\<lparr>imageInput := [],
                 received := received p @ concat (map (emitted ext options) (imageInput p))\<rparr>"
    by (simp add: Cons.hyps(2) [symmetric] e idle)
  show ?case unfolding sched by (simp only: chain same)
qed

lemma LoadImages_one_worker:
  assumes w: "0 < Workers options"
    and d: "\<forall>img \<in> set tasks. \<exists>rs. convert_task ext options img = Returns rs"
  shows "LoadImages ext options False (Returns (n, tasks))
           (replicate (length tasks + length (concat (map (emitted ext options) tasks))) 0) =
         Some (let images = filter (keep_image options) (concat (map (emitted ext options) tasks))
               in if images = [] then Fails ''image not found'' else Returns images)"
proof -
  let ?p0 = "\<lparr>imageInput = tasks, busy = replicate (nat (Workers options)) [],
              received = []\<rparr> :: 'a pool"
  from w have k: "0 < nat (Workers options)" by simp
  then have "0 < length (busy ?p0)" "busy ?p0 ! 0 = []"
    "\<forall>img \<in> set (imageInput ?p0). \<exists>rs. convert_task ext options img = Returns rs"
    using d by simp_all
  from one_worker_runs [OF this]
  have run: "run_pool ext options
           (replicate (length tasks + length (concat (map (emitted ext options) tasks))) 0) ?p0 =
         Returns \<lparr>imageInput = [], busy = replicate (nat (Workers options)) [],
                  received = concat (map (emitted ext options) tasks)\<rparr>"
    by simp
  show ?thesis
    by (simp add: LoadImages_def run finished_def Let_def)
qed

lemma supported_jpg: "isSupportedImage ''a.jpg''" "isSupportedImage ''b.jpg''"
  by (simp_all add: isSupportedImage_def Ext_def ToLower_def)


lemma convert_blank_task:
  "convert_task demo_ext (demo_options False)
     \<lparr>TaskId = i, Reader = [0], TaskPath = p, Filename = f\<rparr> =
   Returns [\<lparr>ImgId = i, Part = 0, Data = Some (), Width = 1, Height = 1,
             IsCover = (i = 0), NeedSpace = False, ImgPath = p\<rparr>]"
  by (simp add: demo_ext_def demo_options_def demo_Decode_def blank1_def
      convert_task_def crop_stage_def split_condition_def apply_gift_def Dx_def Dy_def Let_def)




















text \<open>
  Claim C9, as amended. For every result of a run that is not a dry run, \<^verbatim>\<open>IsCover\<close>
  is true exactly when the index is 0 and the part is 0. The results of a dry run all have
  \<^verbatim>\<open>IsCover\<close> false, also the one of index 0.
\<close>

theorem IsCover_iff:
  assumes "LoadImages ext options dry loaded schedule = Some (Returns images)"
    and "r \<in> set images"
  shows "if dry then \<not> IsCover r else (IsCover r \<longleftrightarrow> ImgId r = 0 \<and> Part r = 0)"
proof -
  from assms(1) obtain n tasks where l: "loaded = Returns (n, tasks)"
    by (cases loaded) (auto simp: LoadImages_def)
  show ?thesis
  proof (cases dry)
    case True
    with assms l have "r \<in> set (map dry_image tasks)" by (simp add: LoadImages_def)
    with True show ?thesis by (auto simp: dry_image_def)
  next
    case False
    with assms(1) l
    have "LoadImages ext options False (Returns (n, tasks)) schedule = Some (Returns images)"
      by simp
    from LoadImages_run [OF this] obtain arrived where
      im: "images = filter (keep_image options) arrived"
      and all: "mset arrived = mset (concat (map (emitted ext options) tasks))"
      by blast
    from all have "set arrived = set (concat (map (emitted ext options) tasks))"
      by (rule mset_eq_setD)
    with assms(2) im obtain t where "r \<in> set (emitted ext options t)" by auto
    from emitted_pages [OF this] False show ?thesis by simp
  qed
qed

theorem IsCover_iff_witness:
  "LoadImages demo_ext (demo_options False) False (Returns (1, [cover_task])) [0, 0] =
     Some (Returns [\<lparr>ImgId = 0, Part = 0, Data = Some (), Width = 1, Height = 1,
                     IsCover = True, NeedSpace = False, ImgPath = ''.''\<rparr>]) \<and>
   IsCover \<lparr>ImgId = 0, Part = 0, Data = Some (), Width = 1, Height = 1,
            IsCover = True, NeedSpace = False, ImgPath = ''.''\<rparr>"
proof -
  have w: "nat (Workers (demo_options False)) = 1" "\<not> NoBlankPage (demo_options False)"
    by (simp_all add: demo_options_def)
  have r: "LoadImages demo_ext (demo_options False) False (Returns (1, [cover_task])) [0, 0] =
     Some (Returns [\<lparr>ImgId = 0, Part = 0, Data = Some (), Width = 1, Height = 1,
                     IsCover = True, NeedSpace = False, ImgPath = ''.''\<rparr>])"
    by (simp add: LoadImages_def w worker_step_def convert_blank_task cover_task_def
        finished_def keep_image_def)
  from IsCover_iff [OF r, of "\<lparr>ImgId = 0, Part = 0, Data = Some (), Width = 1, Height = 1,
                     IsCover = True, NeedSpace = False, ImgPath = ''.''\<rparr>"] r
  show ?thesis by simp
qed

text \<open>
  The dry run of a single task of index 0.
\<close>

theorem IsCover_dry_counterexample:
  "LoadImages demo_ext (demo_options False) True (Returns (1, [cover_task])) [] =
     Some (Returns [\<lparr>ImgId = 0, Part = 0, Data = None, Width = 0, Height = 0,
                     IsCover = False, NeedSpace = False, ImgPath = ''.''\<rparr>])"
  by (simp add: LoadImages_def dry_image_def cover_task_def)

section \<open>Properties of the index of names\<close>

lemma index_loop_other:
  "x \<notin> set names \<Longrightarrow> index_loop m k names x = m x"
  by (induction names arbitrary: m k) auto

lemma index_loop_nth:
  "distinct names \<Longrightarrow> i < length names \<Longrightarrow>
     index_loop m k names (names ! i) = Some (int (k + i))"
proof (induction names arbitrary: m k i)
  case Nil
  then show ?case by simp
next
  case (Cons a names)
  show ?case
  proof (cases i)
    case 0
    with Cons.prems show ?thesis by (simp add: index_loop_other)
  next
    case (Suc j)
    with Cons.prems have "distinct names" "j < length names" by simp_all
    then have "index_loop (m(a \<mapsto> int k)) (Suc k) names (names ! j) = Some (int (Suc k + j))"
      by (rule Cons.IH)
    moreover have "index_loop m k (a # names) ((a # names) ! i) =
        index_loop (m(a \<mapsto> int k)) (Suc k) names (names ! j)"
      unfolding Suc by (simp only: index_loop.simps nth_Cons_Suc)
    ultimately show ?thesis by (simp add: Suc)
  qed
qed

lemma index_loop_dom:
  "index_loop m k names x \<noteq> None \<longleftrightarrow> x \<in> set names \<or> m x \<noteq> None"
  by (induction names arbitrary: m k) auto

lemma indexNames_nth:
  "distinct names \<Longrightarrow> i < length names \<Longrightarrow> indexNames names (names ! i) = Some (int i)"
  using index_loop_nth [of names i Map.empty 0] by (simp add: indexNames_def)

lemma indexNames_dom: "indexNames names x \<noteq> None \<longleftrightarrow> x \<in> set names"
  using index_loop_dom [of Map.empty 0 names x] by (simp add: indexNames_def)

lemma sorted_index_ids:
  assumes d: "distinct names" and p: "mset s = mset names"
  shows "mset (map (lookupIndex (indexNames s)) names) = mset (map int [0..<length names])"
    and "\<forall>n \<in> set names. 0 \<le> lookupIndex (indexNames s) n \<and>
           nat (lookupIndex (indexNames s) n) < length names \<and>
           s ! nat (lookupIndex (indexNames s) n) = n"
proof -
  from p have ds: "distinct s" using d by (metis mset_eq_imp_distinct_iff)
  from p have len: "length s = length names" by (rule mset_eq_length)
  from p have st: "set s = set names" by (rule mset_eq_setD)
  have nth: "\<And>i. i < length s \<Longrightarrow> lookupIndex (indexNames s) (s ! i) = int i"
    using indexNames_nth [OF ds] by (simp add: lookupIndex_def)
  have "map (lookupIndex (indexNames s)) s = map int [0..<length s]"
    by (rule nth_equalityI) (simp_all add: nth)
  moreover have "mset (map (lookupIndex (indexNames s)) names) =
                 mset (map (lookupIndex (indexNames s)) s)"
    using p by simp
  ultimately show "mset (map (lookupIndex (indexNames s)) names) = mset (map int [0..<length names])"
    using len by simp
  show "\<forall>n \<in> set names. 0 \<le> lookupIndex (indexNames s) n \<and>
           nat (lookupIndex (indexNames s) n) < length names \<and>
           s ! nat (lookupIndex (indexNames s) n) = n"
  proof
    fix n assume "n \<in> set names"
    with st have "n \<in> set s" by simp
    then obtain i where i: "i < length s" "s ! i = n" by (metis in_set_conv_nth)
    with nth [of i] len show "0 \<le> lookupIndex (indexNames s) n \<and>
           nat (lookupIndex (indexNames s) n) < length names \<and>
           s ! nat (lookupIndex (indexNames s) n) = n" by auto
  qed
qed

lemma index_loop_last:
  "x \<in> set names \<Longrightarrow>
     \<exists>j < length names. names ! j = x \<and>
        (\<forall>j'. j < j' \<and> j' < length names \<longrightarrow> names ! j' \<noteq> x) \<and>
        index_loop m k names x = Some (int (k + j))"
proof (induction names arbitrary: m k)
  case Nil
  then show ?case by simp
next
  case (Cons a names)
  show ?case
  proof (cases "x \<in> set names")
    case True
    from Cons.IH [OF True, of "m(a \<mapsto> int k)" "Suc k"] obtain j where
      j: "j < length names" "names ! j = x"
         "\<forall>j'. j < j' \<and> j' < length names \<longrightarrow> names ! j' \<noteq> x"
         "index_loop (m(a \<mapsto> int k)) (Suc k) names x = Some (int (Suc k + j))"
      by blast
    have later: "\<forall>j'. Suc j < j' \<and> j' < length (a # names) \<longrightarrow> (a # names) ! j' \<noteq> x"
    proof (intro allI impI)
      fix j' assume h: "Suc j < j' \<and> j' < length (a # names)"
      then obtain i where i: "j' = Suc i" by (cases j') auto
      with h j(3) show "(a # names) ! j' \<noteq> x" by simp
    qed
    have "Suc j < length (a # names) \<and> (a # names) ! Suc j = x \<and>
          index_loop m k (a # names) x = Some (int (k + Suc j))"
      using j by simp
    with later show ?thesis by blast
  next
    case False
    with Cons.prems have xa: "x = a" by simp
    have later: "\<forall>j'. 0 < j' \<and> j' < length (a # names) \<longrightarrow> (a # names) ! j' \<noteq> x"
    proof (intro allI impI)
      fix j' assume h: "0 < j' \<and> j' < length (a # names)"
      then obtain i where i: "j' = Suc i" by (cases j') auto
      with h have "names ! i \<in> set names" by simp
      with False i show "(a # names) ! j' \<noteq> x" by auto
    qed
    have "index_loop m k (a # names) x = Some (int (k + 0))"
      using False xa index_loop_other [of a names "m(a \<mapsto> int k)" "Suc k"] by simp
    moreover have "0 < length (a # names) \<and> (a # names) ! 0 = x" using xa by simp
    ultimately show ?thesis using later by blast
  qed
qed

lemma indexNames_last:
  assumes "x \<in> set names"
  shows "last_position names (lookupIndex (indexNames names) x) x"
proof -
  from index_loop_last [OF assms, of Map.empty 0] obtain j where
    "j < length names" "names ! j = x"
    "\<forall>j'. j < j' \<and> j' < length names \<longrightarrow> names ! j' \<noteq> x"
    "indexNames names x = Some (int j)"
    by (auto simp: indexNames_def)
  then show ?thesis by (simp add: last_position_def lookupIndex_def)
qed

lemma indexed_by_lookup:
  assumes "set ns \<subseteq> set names"
  shows "indexed_by names (map (\<lambda>n. (lookupIndex (indexNames names) n, n)) ns)"
  using assms by (auto simp: indexed_by_def list_all_iff indexNames_last)

lemma dense_lookup:
  assumes "distinct ns" and "mset names = mset ns"
  shows "dense (length ns) (map (lookupIndex (indexNames names)) ns)"
  using sorted_index_ids(1) [OF assms] by (simp add: dense_def)

lemma enumerate_jobs:
  "map (\<lambda>(i, path). \<lparr>djId = int i, djPath = path\<rparr>) (enumerate k ps) =
     map (\<lambda>j. \<lparr>djId = int (k + j), djPath = ps ! j\<rparr>) [0..<length ps]"
proof (induction ps arbitrary: k)
  case Nil
  show ?case by simp
next
  case (Cons p ps)
  have "[0..<length (p # ps)] = 0 # map Suc [0..<length ps]"
    by (simp add: upt_conv_Cons map_Suc_upt del: upt_Suc)
  with Cons [of "Suc k"] show ?case by (simp add: comp_def)
qed

lemma loadDir_jobs_ids:
  fixes entries :: "(string \<times> bool) list"
  defines "images \<equiv> map fst (filter (\<lambda>(path, isDir). \<not> isDir \<and> isSupportedImage path) entries)"
  assumes ne: "images \<noteq> []" and len: "length (sortNames ext images) = length images"
  shows "\<exists>jobs. loadDir_jobs ext (Inr entries) = Returns (int (length images), jobs) \<and>
           map djId jobs = map int [0..<length images] \<and>
           map djPath jobs = sortNames ext images"
proof -
  let ?jobs = "map (\<lambda>(i, path). \<lparr>djId = int i, djPath = path\<rparr>) (enumerate 0 (sortNames ext images))"
  have l: "loadDir_jobs ext (Inr entries) = Returns (int (length images), ?jobs)"
    using ne by (simp add: loadDir_jobs_def images_def Let_def)
  have j: "?jobs = map (\<lambda>j. \<lparr>djId = int j, djPath = sortNames ext images ! j\<rparr>)
                     [0..<length (sortNames ext images)]"
    using enumerate_jobs [of 0 "sortNames ext images"] by simp
  have a: "map djId ?jobs = map int [0..<length images]"
    unfolding j by (simp add: comp_def len)
  have b: "map djPath ?jobs = sortNames ext images"
    unfolding j by (simp add: comp_def map_nth)
  from l a b show ?thesis by blast
qed

lemma loadPdf_ids:
  "\<exists>ts. loadPdf ext Dry (Some pages) = Returns (int (length pages), ts) \<and>
        map tId ts = map int [0..<length pages]"
proof -
  have e: "\<And>(f :: nat \<Rightarrow> (string + image) \<Rightarrow> tasks) k ps.
             (\<And>i page. tId (f i page) = int i) \<Longrightarrow>
             map tId (map (\<lambda>(i, page). f i page) (enumerate k ps)) = map int [k..<k + length ps]"
  proof -
    fix f :: "nat \<Rightarrow> (string + image) \<Rightarrow> tasks" and k ps
    assume h: "\<And>i page. tId (f i page) = int i"
    show "map tId (map (\<lambda>(i, page). f i page) (enumerate k ps)) = map int [k..<k + length ps]"
    proof (induction ps arbitrary: k)
      case Nil
      show ?case by simp
    next
      case (Cons p ps)
      have "[k..<k + length (p # ps)] = k # [Suc k..<Suc k + length ps]"
        by (subst upt_rec) simp
      with Cons [of "Suc k"] h show ?case by simp
    qed
  qed
  show ?thesis
    unfolding loadPdf_def
    by (simp add: Let_def, rule e [of _ 0, simplified]) (simp add: case_prod_unfold Let_def)
qed

lemma dense_distinct:
  assumes "dense n (map f ns)"
  shows "distinct ns"
proof -
  from assms have "mset (map f ns) = mset (map int [0..<n])" by (simp add: dense_def)
  moreover have "distinct (map int [0..<n])" by (simp add: distinct_map)
  ultimately have "distinct (map f ns)" by (metis mset_eq_imp_distinct_iff)
  then show ?thesis by (simp add: distinct_map)
qed

lemma indexed_entries:
  assumes p: "mset names = mset ns"
  shows "indexed_by names (map (\<lambda>n. (lookupIndex (indexNames names) n, n)) ns)"
    and "dense (length ns) (map (lookupIndex (indexNames names)) ns) \<longleftrightarrow> distinct ns"
proof -
  from p have "set ns \<subseteq> set names" by (metis mset_eq_setD order_refl)
  then show "indexed_by names (map (\<lambda>n. (lookupIndex (indexNames names) n, n)) ns)"
    by (rule indexed_by_lookup)
  show "dense (length ns) (map (lookupIndex (indexNames names)) ns) \<longleftrightarrow> distinct ns"
  proof
    assume "dense (length ns) (map (lookupIndex (indexNames names)) ns)"
    then show "distinct ns" by (rule dense_distinct)
  next
    assume "distinct ns"
    then show "dense (length ns) (map (lookupIndex (indexNames names)) ns)"
      using p by (rule dense_lookup)
  qed
qed

lemma cbz_send_entries:
  assumes "\<forall>f \<in> set fs. \<exists>b. zOpen f = Inr b"
  shows "\<exists>ts. cbz_send ext ixn fs = Returns ts \<and>
           map (\<lambda>t. (TaskId t, Filename t)) ts =
             map (\<lambda>n. (lookupIndex ixn n, n)) (map zName fs)"
  using assms
proof (induction fs)
  case Nil
  show ?case by simp
next
  case (Cons f fs)
  then obtain b where b: "zOpen f = Inr b" by auto
  from Cons obtain ts where "cbz_send ext ixn fs = Returns ts"
    "map (\<lambda>t. (TaskId t, Filename t)) ts = map (\<lambda>n. (lookupIndex ixn n, n)) (map zName fs)"
    by auto
  with b show ?case by simp
qed

lemma entries_split:
  assumes "map (\<lambda>t. (f t, g t)) ts = map (\<lambda>n. (h n, n)) ns"
  shows "map f ts = map h ns" and "map g ts = ns"
proof -
  from assms have "map fst (map (\<lambda>t. (f t, g t)) ts) = map fst (map (\<lambda>n. (h n, n)) ns)"
    by (rule arg_cong)
  then show "map f ts = map h ns" by (simp add: comp_def)
  from assms have "map snd (map (\<lambda>t. (f t, g t)) ts) = map snd (map (\<lambda>n. (h n, n)) ns)"
    by (rule arg_cong)
  then show "map g ts = ns" by (simp add: comp_def)
qed

lemma entries_indexed:
  assumes e: "map (\<lambda>t. (f t, g t)) ts = map (\<lambda>n. (lookupIndex (indexNames names) n, n)) ns"
    and p: "mset names = mset ns"
  shows "map g ts = ns \<and> indexed_by names (map (\<lambda>t. (f t, g t)) ts) \<and>
         (dense (length ns) (map f ts) \<longleftrightarrow> distinct ns)"
  using entries_split [OF e] indexed_entries [OF p] by (simp add: e)

section \<open>Properties of the rar loaders\<close>

lemma own_jobs_eq:
  "concat (map (\<lambda>img.
       case ixn (rName img) of
         Some i \<Rightarrow> [\<lparr>rjId = i, rjName = rName img, rjOpen = OwnOpen (rOpen img)\<rparr>]
       | None \<Rightarrow> []) files) =
   map (\<lambda>f. \<lparr>rjId = lookupIndex ixn (rName f), rjName = rName f, rjOpen = OwnOpen (rOpen f)\<rparr>)
     (filter (\<lambda>f. ixn (rName f) \<noteq> None) files)"
  by (induction files) (auto simp: lookupIndex_def split: option.splits)

lemma read_solid_presented:
  "read_solid ixn (map (\<lambda>f. Header (rName f) (rIsDir f) (content f) None) files) =
   Returns (map (\<lambda>f. \<lparr>rjId = lookupIndex ixn (rName f), rjName = rName f,
                        rjOpen = Buffered (content f)\<rparr>)
              (filter (\<lambda>f. ixn (rName f) \<noteq> None) files))"
  by (induction files) (auto simp: lookupIndex_def split: option.splits)

lemma cbr_list_presented:
  "cbr_list (map (\<lambda>f. Header (rName f) (rIsDir f) (content f) None) files) =
   Returns (map rName (qualifying files))"
  by (induction files) (simp_all add: qualifying_def)

lemma cbr_send_presented:
  "cbr_send ext ixn (map (\<lambda>f. Header (rName f) (rIsDir f) (content f) None) files) =
   Returns (map (\<lambda>f. \<lparr>TaskId = lookupIndex ixn (rName f), Reader = content f,
                        TaskPath = Dir ext (Clean ext (rName f)), Filename = rName f\<rparr>)
              (filter (\<lambda>f. ixn (rName f) \<noteq> None) files))"
  by (induction files) (auto simp: lookupIndex_def split: option.splits)

lemma indexed_listed:
  assumes "set s = set (map rName (qualifying files))"
  shows "filter (\<lambda>f. indexNames s (rName f) \<noteq> None) files =
         filter (\<lambda>f. rName f \<in> rName ` set (qualifying files)) files"
  using assms by (simp only: indexNames_dom) simp

lemma listed_qualifying:
  assumes "distinct (map rName files)"
  shows "filter (\<lambda>f. rName f \<in> rName ` set (qualifying files)) files = qualifying files"
proof -
  from assms have inj: "inj_on rName (set files)" by (simp add: distinct_map)
  have "\<forall>f \<in> set files. rName f \<in> rName ` set (qualifying files) \<longleftrightarrow>
           \<not> rIsDir f \<and> isSupportedImage (rName f)"
  proof
    fix f assume f: "f \<in> set files"
    show "rName f \<in> rName ` set (qualifying files) \<longleftrightarrow> \<not> rIsDir f \<and> isSupportedImage (rName f)"
    proof
      assume "rName f \<in> rName ` set (qualifying files)"
      then obtain g where g: "g \<in> set (qualifying files)" "rName f = rName g" by blast
      then have "g \<in> set files" by (simp add: qualifying_def)
      with inj f g(2) have "f = g" by (simp add: inj_on_def)
      with g(1) show "\<not> rIsDir f \<and> isSupportedImage (rName f)" by (simp add: qualifying_def)
    next
      assume "\<not> rIsDir f \<and> isSupportedImage (rName f)"
      with f have "f \<in> set (qualifying files)" by (simp add: qualifying_def)
      then show "rName f \<in> rName ` set (qualifying files)" by (rule imageI)
    qed
  qed
  then have "filter (\<lambda>f. rName f \<in> rName ` set (qualifying files)) files =
             filter (\<lambda>f. \<not> rIsDir f \<and> isSupportedImage (rName f)) files"
    by (intro filter_cong refl) blast
  then show ?thesis by (simp add: qualifying_def)
qed

lemma listed_nonempty:
  assumes "qualifying files \<noteq> []"
  shows "filter (\<lambda>f. rName f \<in> rName ` set (qualifying files)) files \<noteq> []"
proof -
  from assms obtain f where f: "f \<in> set (qualifying files)" by (cases "qualifying files") auto
  then have "f \<in> set files" by (simp add: qualifying_def)
  moreover from f have "rName f \<in> rName ` set (qualifying files)" by (rule imageI)
  ultimately show ?thesis by (auto simp: filter_empty_conv)
qed

lemma loadCbr_jobs_listed:
  assumes l: "rList archive = Inr files"
    and ne: "qualifying files \<noteq> []"
    and p: "set (sortNames ext (map rName (qualifying files))) = set (map rName (qualifying files))"
  shows "(isSolid files \<and> \<not> Dry \<longrightarrow> presents archive files content \<longrightarrow>
            loadCbr_jobs ext Dry archive =
              Returns (int (length (qualifying files)),
                map (\<lambda>f. \<lparr>rjId = lookupIndex
                                   (indexNames (sortNames ext (map rName (qualifying files))))
                                   (rName f),
                           rjName = rName f, rjOpen = Buffered (content f)\<rparr>)
                  (filter (\<lambda>f. rName f \<in> rName ` set (qualifying files)) files))) \<and>
         (\<not> (isSolid files \<and> \<not> Dry) \<longrightarrow>
            loadCbr_jobs ext Dry archive =
              Returns (int (length (qualifying files)),
                map (\<lambda>f. \<lparr>rjId = lookupIndex
                                   (indexNames (sortNames ext (map rName (qualifying files))))
                                   (rName f),
                           rjName = rName f, rjOpen = OwnOpen (rOpen f)\<rparr>)
                  (filter (\<lambda>f. rName f \<in> rName ` set (qualifying files)) files)))"
proof -
  let ?names = "sortNames ext (map rName (qualifying files))"
  let ?listed = "filter (\<lambda>f. rName f \<in> rName ` set (qualifying files)) files"
  have il: "filter (\<lambda>f. indexNames ?names (rName f) \<noteq> None) files = ?listed"
    using p by (rule indexed_listed)
  have il': "filter (\<lambda>f. \<exists>y. indexNames ?names (rName f) = Some y) files = ?listed"
    using il by simp
  have b: "isSolid files \<and> \<not> Dry \<longrightarrow> presents archive files content \<longrightarrow>
            loadCbr_jobs ext Dry archive =
              Returns (int (length (qualifying files)),
                map (\<lambda>f. \<lparr>rjId = lookupIndex (indexNames ?names) (rName f), rjName = rName f,
                           rjOpen = Buffered (content f)\<rparr>) ?listed)"
  proof (intro impI)
    assume s: "isSolid files \<and> \<not> Dry" and pr: "presents archive files content"
    from pr have r: "rOpenReader archive =
        Inr (map (\<lambda>f. Header (rName f) (rIsDir f) (content f) None) files)"
      by (simp add: presents_def)
    show "loadCbr_jobs ext Dry archive =
              Returns (int (length (qualifying files)),
                map (\<lambda>f. \<lparr>rjId = lookupIndex (indexNames ?names) (rName f), rjName = rName f,
                           rjOpen = Buffered (content f)\<rparr>) ?listed)"
      using l ne s
      by (simp add: loadCbr_jobs_def Let_def r read_solid_presented il il')
  qed
  have c: "\<not> (isSolid files \<and> \<not> Dry) \<longrightarrow>
            loadCbr_jobs ext Dry archive =
              Returns (int (length (qualifying files)),
                map (\<lambda>f. \<lparr>rjId = lookupIndex (indexNames ?names) (rName f), rjName = rName f,
                           rjOpen = OwnOpen (rOpen f)\<rparr>) ?listed)"
  proof (intro impI)
    assume s: "\<not> (isSolid files \<and> \<not> Dry)"
    show "loadCbr_jobs ext Dry archive =
              Returns (int (length (qualifying files)),
                map (\<lambda>f. \<lparr>rjId = lookupIndex (indexNames ?names) (rName f), rjName = rName f,
                           rjOpen = OwnOpen (rOpen f)\<rparr>) ?listed)"
      using l ne s
      by (auto simp: loadCbr_jobs_def Let_def own_jobs_eq il il')
  qed
  from b c show ?thesis by (rule conjI)
qed

lemma loadCbr_listed:
  assumes ne: "qualifying files \<noteq> []"
    and p: "set (sortNames ext (map rName (qualifying files))) = set (map rName (qualifying files))"
    and pr: "presents archive files content"
  shows "loadCbr ext archive =
           Returns (int (length (qualifying files)),
             map (\<lambda>f. \<lparr>TaskId = lookupIndex
                                 (indexNames (sortNames ext (map rName (qualifying files))))
                                 (rName f),
                        Reader = content f,
                        TaskPath = Dir ext (Clean ext (rName f)), Filename = rName f\<rparr>)
               (filter (\<lambda>f. rName f \<in> rName ` set (qualifying files)) files))"
proof -
  let ?names = "sortNames ext (map rName (qualifying files))"
  let ?listed = "filter (\<lambda>f. rName f \<in> rName ` set (qualifying files)) files"
  have il: "filter (\<lambda>f. indexNames ?names (rName f) \<noteq> None) files = ?listed"
    using p by (rule indexed_listed)
  have il': "filter (\<lambda>f. \<exists>y. indexNames ?names (rName f) = Some y) files = ?listed"
    using il by simp
  from pr have r: "rOpenReader archive =
      Inr (map (\<lambda>f. Header (rName f) (rIsDir f) (content f) None) files)"
    by (simp add: presents_def)
  show ?thesis
    using ne
    by (simp add: loadCbr_def r cbr_list_presented cbr_send_presented Let_def il il')
qed

lemma loadCbr_reads_stream: "loadCbr ext (archive\<lparr>rList := listing\<rparr>) = loadCbr ext archive"
  by (simp add: loadCbr_def)

text \<open>
  Claim C8, as amended. For a rar archive that lists at least one qualifying image, and a
  sort that keeps the set of names, the queue of \<^verbatim>\<open>loadCbr\<close> of the loader is not empty and
  holds, in the order of the archive, the listed entries whose name is a qualifying name,
  each with the index its name has in the sorted list. When a qualifying entry is flagged
  solid and the run is not a dry run, the loader makes one sequential pass, and when the
  sequential reader presents the listed entries without an error, every job carries
  exactly the bytes of its entry, buffered in memory. Otherwise (no solid flag, or a dry
  run) nothing is read and every job carries the entry's own \<^verbatim>\<open>Open\<close>.
  \<^verbatim>\<open>loadCbr\<close> of image\_processing.go reads no listing and no solid flag: whenever the reader
  presents the entries it buffers every one of these entries in a sequential pass.
\<close>

theorem cbr_buffering:
  fixes files :: "rarFile list" and ext :: "'d externals"
  defines "names \<equiv> sortNames ext (map rName (qualifying files))"
  defines "listed \<equiv> filter (\<lambda>f. rName f \<in> rName ` set (qualifying files)) files"
  assumes l: "rList archive = Inr files"
    and ne: "qualifying files \<noteq> []"
    and p: "set names = set (map rName (qualifying files))"
  shows "listed \<noteq> [] \<and>
         (isSolid files \<and> \<not> Dry \<longrightarrow> presents archive files content \<longrightarrow>
            loadCbr_jobs ext Dry archive =
              Returns (int (length (qualifying files)),
                map (\<lambda>f. \<lparr>rjId = lookupIndex (indexNames names) (rName f), rjName = rName f,
                           rjOpen = Buffered (content f)\<rparr>) listed)) \<and>
         (\<not> (isSolid files \<and> \<not> Dry) \<longrightarrow>
            loadCbr_jobs ext Dry archive =
              Returns (int (length (qualifying files)),
                map (\<lambda>f. \<lparr>rjId = lookupIndex (indexNames names) (rName f), rjName = rName f,
                           rjOpen = OwnOpen (rOpen f)\<rparr>) listed)) \<and>
         (\<forall>f \<in> set listed. last_position names (lookupIndex (indexNames names) (rName f)) (rName f)) \<and>
         (presents archive files content \<longrightarrow>
            (\<forall>listing. loadCbr ext (archive\<lparr>rList := listing\<rparr>) =
              Returns (int (length (qualifying files)),
                map (\<lambda>f. \<lparr>TaskId = lookupIndex (indexNames names) (rName f), Reader = content f,
                           TaskPath = Dir ext (Clean ext (rName f)), Filename = rName f\<rparr>) listed)))"
proof -
  have a: "listed \<noteq> []" unfolding listed_def using ne by (rule listed_nonempty)
  have p': "set (sortNames ext (map rName (qualifying files))) = set (map rName (qualifying files))"
    using p by (simp only: names_def)
  note bc = loadCbr_jobs_listed [OF l ne p', where Dry = Dry and content = content, folded names_def listed_def]
  have d: "\<forall>f \<in> set listed. last_position names (lookupIndex (indexNames names) (rName f)) (rName f)"
  proof
    fix f assume "f \<in> set listed"
    then have "rName f \<in> set names" using p by (simp add: listed_def)
    then show "last_position names (lookupIndex (indexNames names) (rName f)) (rName f)"
      by (rule indexNames_last)
  qed
  have e: "presents archive files content \<longrightarrow>
            (\<forall>listing. loadCbr ext (archive\<lparr>rList := listing\<rparr>) =
              Returns (int (length (qualifying files)),
                map (\<lambda>f. \<lparr>TaskId = lookupIndex (indexNames names) (rName f), Reader = content f,
                           TaskPath = Dir ext (Clean ext (rName f)), Filename = rName f\<rparr>) listed))"
  proof (intro impI allI)
    fix listing assume pr: "presents archive files content"
    from loadCbr_listed [OF ne p' pr, folded names_def listed_def]
    show "loadCbr ext (archive\<lparr>rList := listing\<rparr>) =
              Returns (int (length (qualifying files)),
                map (\<lambda>f. \<lparr>TaskId = lookupIndex (indexNames names) (rName f), Reader = content f,
                           TaskPath = Dir ext (Clean ext (rName f)), Filename = rName f\<rparr>) listed)"
      by (simp only: loadCbr_reads_stream)
  qed
  from a bc d e show ?thesis by (intro conjI) blast+
qed

theorem cbr_buffering_witness:
  "isSolid [\<lparr>rName = ''a.jpg'', rIsDir = False, rSolid = True, rOpen = Inr [0]\<rparr>] \<and>
   presents solid_archive
     [\<lparr>rName = ''a.jpg'', rIsDir = False, rSolid = True, rOpen = Inr [0]\<rparr>] (\<lambda>f. [0]) \<and>
   loadCbr_jobs demo_ext False solid_archive =
     Returns (1, [\<lparr>rjId = 0, rjName = ''a.jpg'', rjOpen = Buffered [0]\<rparr>])"
proof -
  let ?files = "[\<lparr>rName = ''a.jpg'', rIsDir = False, rSolid = True, rOpen = Inr [0]\<rparr>]"
  have l: "rList solid_archive = Inr ?files" by (simp add: solid_archive_def)
  have q: "qualifying ?files = ?files" by (simp add: qualifying_def supported_jpg)
  have ne: "qualifying ?files \<noteq> []" by (simp add: q)
  have n: "sortNames demo_ext (map rName (qualifying ?files)) = [''a.jpg'']"
    by (simp add: q demo_ext_def)
  have p: "set (sortNames demo_ext (map rName (qualifying ?files))) =
           set (map rName (qualifying ?files))"
    by (simp add: n) (simp add: q)
  have s: "isSolid ?files \<and> \<not> False" by (simp add: isSolid_def q)
  have pr: "presents solid_archive ?files (\<lambda>f. [0])"
    by (simp add: presents_def solid_archive_def)
  from cbr_buffering [OF l ne p, of False "\<lambda>f. [0]"] s pr
  have "loadCbr_jobs demo_ext False solid_archive =
     Returns (int (length (qualifying ?files)),
       map (\<lambda>f. \<lparr>rjId = lookupIndex (indexNames (sortNames demo_ext (map rName (qualifying ?files))))
                          (rName f),
                  rjName = rName f, rjOpen = Buffered [0]\<rparr>)
         (filter (\<lambda>f. rName f \<in> rName ` set (qualifying ?files)) ?files))"
    by blast
  then have "loadCbr_jobs demo_ext False solid_archive =
     Returns (1, [\<lparr>rjId = 0, rjName = ''a.jpg'', rjOpen = Buffered [0]\<rparr>])"
    unfolding n by (simp add: q indexNames_def lookupIndex_def)
  with s pr show ?thesis by simp
qed

text \<open>
  A solid archive in a dry run: the job carries the entry's own \<^verbatim>\<open>Open\<close>, nothing is
  buffered. And an archive that is not solid: \<^verbatim>\<open>loadCbr\<close> of image\_processing.go buffers
  the bytes of its entry.
\<close>

theorem cbr_buffering_counterexample:
  "isSolid [\<lparr>rName = ''a.jpg'', rIsDir = False, rSolid = True, rOpen = Inr [0]\<rparr>] \<and>
   rList solid_archive =
     Inr [\<lparr>rName = ''a.jpg'', rIsDir = False, rSolid = True, rOpen = Inr [0]\<rparr>] \<and>
   loadCbr_jobs demo_ext True solid_archive =
     Returns (1, [\<lparr>rjId = 0, rjName = ''a.jpg'', rjOpen = OwnOpen (Inr [0])\<rparr>]) \<and>
   \<not> isSolid [\<lparr>rName = ''a.jpg'', rIsDir = False, rSolid = False, rOpen = Inr [0]\<rparr>] \<and>
   rList plain_archive =
     Inr [\<lparr>rName = ''a.jpg'', rIsDir = False, rSolid = False, rOpen = Inr [0]\<rparr>] \<and>
   loadCbr demo_ext plain_archive =
     Returns (1, [\<lparr>TaskId = 0, Reader = [0], TaskPath = ''.'', Filename = ''a.jpg''\<rparr>])"
  by (simp add: solid_archive_def plain_archive_def isSolid_def qualifying_def supported_jpg
      loadCbr_jobs_def loadCbr_def demo_ext_def indexNames_def lookupIndex_def)

section \<open>Properties of the enumeration\<close>

lemma insert_name_mset: "mset (insert_name n ns) = add_mset n (mset ns)"
  by (induction ns) simp_all

lemma demo_sort_mset: "mset (demo_sort ns) = mset ns"
  by (induction ns) (simp_all add: insert_name_mset)

lemma demo_ext_sort: "sortNames demo_ext = demo_sort"
  by (simp add: demo_ext_def)

lemma supported_b_jpg: "isSupportedImage ''d/b.jpg'' \<and> isSupportedImage ''d/a.jpg''"
  by (simp add: isSupportedImage_def Ext_def ToLower_def)

lemma supported_in: "isSupportedImage ''in/a.jpg''" "isSupportedImage ''in/b.jpg''"
  "\<not> isSupportedImage ''in''"
  by (simp_all add: isSupportedImage_def Ext_def ToLower_def)

text \<open>
  Claim C7, as amended. The sort returns a permutation of the names it is given, and the
  source holds N qualifying images, N at least 1. \<^verbatim>\<open>loadDir\<close> of the loader queues N jobs
  with the indices 0 to N-1 in this order, job i with the i-th path of the sorted list.
  \<^verbatim>\<open>loadCbz\<close> of the loader queues one job for every qualifying entry, in the physical order of
  the archive; the index of a job is the last position of its name in the sorted list, and
  the indices are a permutation of 0..N-1 exactly when the qualifying names are pairwise
  distinct. \<^verbatim>\<open>loadCbz\<close> of image\_processing.go does the same when every qualifying entry opens.
  For a rar archive whose entry names are pairwise distinct, \<^verbatim>\<open>loadCbr\<close> of the loader (in
  its sequential pass: when the reader presents the listed entries without an error) and
  \<^verbatim>\<open>loadCbr\<close> of image\_processing.go (when the reader does so) queue one entry for every
  qualifying image, indexed by the position of its name in the sorted list, a permutation of
  0..N-1. \<^verbatim>\<open>loadPdf\<close> of the loader gives the pages the indices 0 to N-1 in their order.
\<close>

theorem enumeration_indices:
  fixes ext :: "'d externals" and entries :: "(string \<times> bool) list"
    and zfiles :: "zipFile list" and rfiles :: "rarFile list"
  defines "dimages \<equiv>
     map fst (filter (\<lambda>(path, isDir). \<not> isDir \<and> isSupportedImage path) entries)"
  defines "zimages \<equiv> filter (\<lambda>f. \<not> zIsDir f \<and> isSupportedImage (zName f)) zfiles"
  defines "znames \<equiv> sortNames ext (map zName zimages)"
  defines "rimages \<equiv> qualifying rfiles"
  defines "rnames \<equiv> sortNames ext (map rName rimages)"
  assumes perm: "\<And>ns. mset (sortNames ext ns) = mset ns"
  shows
    "(dimages \<noteq> [] \<longrightarrow>
        (\<exists>jobs. loadDir_jobs ext (Inr entries) = Returns (int (length dimages), jobs) \<and>
           map djId jobs = map int [0..<length dimages] \<and>
           map djPath jobs = sortNames ext dimages)) \<and>
     (zimages \<noteq> [] \<longrightarrow>
        (\<exists>jobs. loadCbz_jobs ext (Inr zfiles) = Returns (int (length zimages), jobs) \<and>
           map cjF jobs = zimages \<and>
           indexed_by znames (map (\<lambda>j. (cjId j, zName (cjF j))) jobs) \<and>
           (dense (length zimages) (map cjId jobs) \<longleftrightarrow> distinct (map zName zimages)))) \<and>
     (zimages \<noteq> [] \<and> (\<forall>f \<in> set zimages. \<exists>b. zOpen f = Inr b) \<longrightarrow>
        (\<exists>tasks. loadCbz ext (Inr zfiles) = Returns (int (length zimages), tasks) \<and>
           map Filename tasks = map zName zimages \<and>
           indexed_by znames (map (\<lambda>t. (TaskId t, Filename t)) tasks) \<and>
           (dense (length zimages) (map TaskId tasks) \<longleftrightarrow> distinct (map zName zimages)))) \<and>
     (rList archive = Inr rfiles \<and> rimages \<noteq> [] \<and> distinct (map rName rfiles) \<and>
      (isSolid rfiles \<and> \<not> Dry \<longrightarrow> presents archive rfiles content) \<longrightarrow>
        (\<exists>jobs. loadCbr_jobs ext Dry archive = Returns (int (length rimages), jobs) \<and>
           map rjName jobs = map rName rimages \<and>
           indexed_by rnames (map (\<lambda>j. (rjId j, rjName j)) jobs) \<and>
           dense (length rimages) (map rjId jobs))) \<and>
     (rimages \<noteq> [] \<and> distinct (map rName rfiles) \<and> presents archive rfiles content \<longrightarrow>
        (\<exists>tasks. loadCbr ext archive = Returns (int (length rimages), tasks) \<and>
           map Filename tasks = map rName rimages \<and>
           indexed_by rnames (map (\<lambda>t. (TaskId t, Filename t)) tasks) \<and>
           dense (length rimages) (map TaskId tasks))) \<and>
     (\<exists>ts. loadPdf ext Dry (Some pages) = Returns (int (length pages), ts) \<and>
        map tId ts = map int [0..<length pages])"
proof -
  let ?zg = "lookupIndex (indexNames znames)"
  let ?rg = "lookupIndex (indexNames rnames)"
  have zp: "mset znames = mset (map zName zimages)" unfolding znames_def by (rule perm)
  have rp: "mset rnames = mset (map rName rimages)" unfolding rnames_def by (rule perm)
  have rs: "set (sortNames ext (map rName (qualifying rfiles))) = set (map rName (qualifying rfiles))"
    using perm by (rule mset_eq_setD)
  have dir: "dimages \<noteq> [] \<longrightarrow>
        (\<exists>jobs. loadDir_jobs ext (Inr entries) = Returns (int (length dimages), jobs) \<and>
           map djId jobs = map int [0..<length dimages] \<and>
           map djPath jobs = sortNames ext dimages)"
  proof
    assume ne: "dimages \<noteq> []"
    have "length (sortNames ext dimages) = length dimages"
      using perm by (rule mset_eq_length)
    with ne show "\<exists>jobs. loadDir_jobs ext (Inr entries) = Returns (int (length dimages), jobs) \<and>
           map djId jobs = map int [0..<length dimages] \<and>
           map djPath jobs = sortNames ext dimages"
      unfolding dimages_def by (rule loadDir_jobs_ids)
  qed
  have zipj: "zimages \<noteq> [] \<longrightarrow>
        (\<exists>jobs. loadCbz_jobs ext (Inr zfiles) = Returns (int (length zimages), jobs) \<and>
           map cjF jobs = zimages \<and>
           indexed_by znames (map (\<lambda>j. (cjId j, zName (cjF j))) jobs) \<and>
           (dense (length zimages) (map cjId jobs) \<longleftrightarrow> distinct (map zName zimages)))"
  proof
    assume ne: "zimages \<noteq> []"
    let ?jobs = "map (\<lambda>img. \<lparr>cjId = ?zg (zName img), cjF = img\<rparr>) zimages"
    have j: "loadCbz_jobs ext (Inr zfiles) = Returns (int (length zimages), ?jobs)"
      using ne by (simp add: loadCbz_jobs_def zimages_def znames_def Let_def)
    have f: "map cjF ?jobs = zimages" by (simp add: comp_def)
    have e: "map (\<lambda>j. (cjId j, zName (cjF j))) ?jobs =
             map (\<lambda>n. (?zg n, n)) (map zName zimages)"
      by (simp add: comp_def)
    from entries_indexed [OF e zp]
    have "indexed_by znames (map (\<lambda>j. (cjId j, zName (cjF j))) ?jobs) \<and>
          (dense (length zimages) (map cjId ?jobs) \<longleftrightarrow> distinct (map zName zimages))"
      by simp
    with j f show "\<exists>jobs. loadCbz_jobs ext (Inr zfiles) = Returns (int (length zimages), jobs) \<and>
           map cjF jobs = zimages \<and>
           indexed_by znames (map (\<lambda>j. (cjId j, zName (cjF j))) jobs) \<and>
           (dense (length zimages) (map cjId jobs) \<longleftrightarrow> distinct (map zName zimages))"
      by (intro exI [of _ ?jobs] conjI) simp_all
  qed
  have zipt: "zimages \<noteq> [] \<and> (\<forall>f \<in> set zimages. \<exists>b. zOpen f = Inr b) \<longrightarrow>
        (\<exists>tasks. loadCbz ext (Inr zfiles) = Returns (int (length zimages), tasks) \<and>
           map Filename tasks = map zName zimages \<and>
           indexed_by znames (map (\<lambda>t. (TaskId t, Filename t)) tasks) \<and>
           (dense (length zimages) (map TaskId tasks) \<longleftrightarrow> distinct (map zName zimages)))"
  proof
    assume h: "zimages \<noteq> [] \<and> (\<forall>f \<in> set zimages. \<exists>b. zOpen f = Inr b)"
    then have ne: "zimages \<noteq> []" and o: "\<forall>f \<in> set zimages. \<exists>b. zOpen f = Inr b"
      by simp_all
    from cbz_send_entries [OF o, of ext "indexNames znames"] obtain ts where
      ts: "cbz_send ext (indexNames znames) zimages = Returns ts"
      and e: "map (\<lambda>t. (TaskId t, Filename t)) ts = map (\<lambda>n. (?zg n, n)) (map zName zimages)"
      by blast
    have l: "loadCbz ext (Inr zfiles) = Returns (int (length zimages), ts)"
      using ne ts by (simp add: loadCbz_def zimages_def znames_def Let_def)
    from entries_indexed [OF e zp]
    have "map Filename ts = map zName zimages \<and>
          indexed_by znames (map (\<lambda>t. (TaskId t, Filename t)) ts) \<and>
          (dense (length zimages) (map TaskId ts) \<longleftrightarrow> distinct (map zName zimages))"
      by simp
    with l show "\<exists>tasks. loadCbz ext (Inr zfiles) = Returns (int (length zimages), tasks) \<and>
           map Filename tasks = map zName zimages \<and>
           indexed_by znames (map (\<lambda>t. (TaskId t, Filename t)) tasks) \<and>
           (dense (length zimages) (map TaskId tasks) \<longleftrightarrow> distinct (map zName zimages))"
      by (intro exI [of _ ts]) simp
  qed
  have rarj: "rList archive = Inr rfiles \<and> rimages \<noteq> [] \<and> distinct (map rName rfiles) \<and>
      (isSolid rfiles \<and> \<not> Dry \<longrightarrow> presents archive rfiles content) \<longrightarrow>
        (\<exists>jobs. loadCbr_jobs ext Dry archive = Returns (int (length rimages), jobs) \<and>
           map rjName jobs = map rName rimages \<and>
           indexed_by rnames (map (\<lambda>j. (rjId j, rjName j)) jobs) \<and>
           dense (length rimages) (map rjId jobs))"
  proof
    assume h: "rList archive = Inr rfiles \<and> rimages \<noteq> [] \<and> distinct (map rName rfiles) \<and>
      (isSolid rfiles \<and> \<not> Dry \<longrightarrow> presents archive rfiles content)"
    then have l: "rList archive = Inr rfiles" and ne: "qualifying rfiles \<noteq> []"
      and d: "distinct (map rName rfiles)"
      and pr: "isSolid rfiles \<and> \<not> Dry \<longrightarrow> presents archive rfiles content"
      by (simp_all add: rimages_def)
    have lq: "filter (\<lambda>f. rName f \<in> rName ` set (qualifying rfiles)) rfiles = rimages"
      unfolding rimages_def using d by (rule listed_qualifying)
    have dq: "distinct (map rName rimages)"
      unfolding rimages_def qualifying_def using d by (rule distinct_map_filter)
    obtain jobs where j: "loadCbr_jobs ext Dry archive = Returns (int (length rimages), jobs)"
      and e: "map (\<lambda>j. (rjId j, rjName j)) jobs = map (\<lambda>n. (?rg n, n)) (map rName rimages)"
    proof (cases "isSolid rfiles \<and> \<not> Dry")
      case True
      with pr have "presents archive rfiles content" by simp
      with True loadCbr_jobs_listed [OF l ne rs, of Dry content]
      have "loadCbr_jobs ext Dry archive =
              Returns (int (length rimages),
                map (\<lambda>f. \<lparr>rjId = ?rg (rName f), rjName = rName f,
                           rjOpen = Buffered (content f)\<rparr>) rimages)"
        by (simp add: lq) (simp add: rimages_def rnames_def)
      moreover have "map (\<lambda>j. (rjId j, rjName j))
           (map (\<lambda>f. \<lparr>rjId = ?rg (rName f), rjName = rName f,
                           rjOpen = Buffered (content f)\<rparr>) rimages) =
           map (\<lambda>n. (?rg n, n)) (map rName rimages)"
        by (simp add: comp_def)
      ultimately show ?thesis by (rule that)
    next
      case False
      with loadCbr_jobs_listed [OF l ne rs, of Dry content]
      have "loadCbr_jobs ext Dry archive =
              Returns (int (length rimages),
                map (\<lambda>f. \<lparr>rjId = ?rg (rName f), rjName = rName f,
                           rjOpen = OwnOpen (rOpen f)\<rparr>) rimages)"
        by (simp add: lq) (simp add: rimages_def rnames_def)
      moreover have "map (\<lambda>j. (rjId j, rjName j))
           (map (\<lambda>f. \<lparr>rjId = ?rg (rName f), rjName = rName f,
                           rjOpen = OwnOpen (rOpen f)\<rparr>) rimages) =
           map (\<lambda>n. (?rg n, n)) (map rName rimages)"
        by (simp add: comp_def)
      ultimately show ?thesis by (rule that)
    qed
    from entries_indexed [OF e rp] dq
    have "map rjName jobs = map rName rimages \<and>
          indexed_by rnames (map (\<lambda>j. (rjId j, rjName j)) jobs) \<and>
          dense (length rimages) (map rjId jobs)"
      by simp
    with j show "\<exists>jobs. loadCbr_jobs ext Dry archive = Returns (int (length rimages), jobs) \<and>
           map rjName jobs = map rName rimages \<and>
           indexed_by rnames (map (\<lambda>j. (rjId j, rjName j)) jobs) \<and>
           dense (length rimages) (map rjId jobs)"
      by (intro exI [of _ jobs]) simp
  qed
  have rart: "rimages \<noteq> [] \<and> distinct (map rName rfiles) \<and> presents archive rfiles content \<longrightarrow>
        (\<exists>tasks. loadCbr ext archive = Returns (int (length rimages), tasks) \<and>
           map Filename tasks = map rName rimages \<and>
           indexed_by rnames (map (\<lambda>t. (TaskId t, Filename t)) tasks) \<and>
           dense (length rimages) (map TaskId tasks))"
  proof
    assume h: "rimages \<noteq> [] \<and> distinct (map rName rfiles) \<and> presents archive rfiles content"
    then have ne: "qualifying rfiles \<noteq> []" and d: "distinct (map rName rfiles)"
      and pr: "presents archive rfiles content"
      by (simp_all add: rimages_def)
    have lq: "filter (\<lambda>f. rName f \<in> rName ` set (qualifying rfiles)) rfiles = rimages"
      unfolding rimages_def using d by (rule listed_qualifying)
    have dq: "distinct (map rName rimages)"
      unfolding rimages_def qualifying_def using d by (rule distinct_map_filter)
    let ?ts = "map (\<lambda>f. \<lparr>TaskId = ?rg (rName f), Reader = content f,
                        TaskPath = Dir ext (Clean ext (rName f)), Filename = rName f\<rparr>) rimages"
    from loadCbr_listed [OF ne rs pr]
    have t: "loadCbr ext archive = Returns (int (length rimages), ?ts)"
      by (simp add: lq) (simp add: rimages_def rnames_def)
    have e: "map (\<lambda>t. (TaskId t, Filename t)) ?ts = map (\<lambda>n. (?rg n, n)) (map rName rimages)"
      by (simp add: comp_def)
    from entries_indexed [OF e rp] dq
    have "map Filename ?ts = map rName rimages \<and>
          indexed_by rnames (map (\<lambda>t. (TaskId t, Filename t)) ?ts) \<and>
          dense (length rimages) (map TaskId ?ts)"
      by simp
    with t show "\<exists>tasks. loadCbr ext archive = Returns (int (length rimages), tasks) \<and>
           map Filename tasks = map rName rimages \<and>
           indexed_by rnames (map (\<lambda>t. (TaskId t, Filename t)) tasks) \<and>
           dense (length rimages) (map TaskId tasks)"
      by (intro exI [of _ ?ts]) simp
  qed
  have pdf: "\<exists>ts. loadPdf ext Dry (Some pages) = Returns (int (length pages), ts) \<and>
        map tId ts = map int [0..<length pages]"
    by (rule loadPdf_ids)
  from dir zipj zipt rarj rart pdf show ?thesis by (intro conjI)
qed

theorem enumeration_indices_witness:
  "(\<exists>jobs. loadDir_jobs demo_ext (Inr [(''in'', True), (''in/b.jpg'', False), (''in/a.jpg'', False)]) =
             Returns (2, jobs) \<and>
           map djId jobs = [0, 1] \<and> map djPath jobs = [''in/a.jpg'', ''in/b.jpg'']) \<and>
   (\<exists>jobs. loadCbz_jobs demo_ext (Inr zip_ba) = Returns (2, jobs) \<and> map cjF jobs = zip_ba \<and>
           indexed_by [''a.jpg'', ''b.jpg''] (map (\<lambda>j. (cjId j, zName (cjF j))) jobs) \<and>
           dense 2 (map cjId jobs)) \<and>
   (\<exists>tasks. loadCbz demo_ext (Inr zip_ba) = Returns (2, tasks) \<and>
           map Filename tasks = [''b.jpg'', ''a.jpg''] \<and>
           indexed_by [''a.jpg'', ''b.jpg''] (map (\<lambda>t. (TaskId t, Filename t)) tasks) \<and>
           dense 2 (map TaskId tasks)) \<and>
   (\<exists>jobs. loadCbr_jobs demo_ext False solid_archive = Returns (1, jobs) \<and>
           map rjName jobs = [''a.jpg''] \<and>
           indexed_by [''a.jpg''] (map (\<lambda>j. (rjId j, rjName j)) jobs) \<and>
           dense 1 (map rjId jobs)) \<and>
   (\<exists>tasks. loadCbr demo_ext solid_archive = Returns (1, tasks) \<and>
           map Filename tasks = [''a.jpg''] \<and>
           indexed_by [''a.jpg''] (map (\<lambda>t. (TaskId t, Filename t)) tasks) \<and>
           dense 1 (map TaskId tasks)) \<and>
   (\<exists>ts. loadPdf demo_ext False (Some [Inl ''no image'', Inr blank1]) = Returns (2, ts) \<and>
           map tId ts = [0, 1])"
proof -
  let ?entries = "[(''in'', True), (''in/b.jpg'', False), (''in/a.jpg'', False)]"
  let ?rfiles = "[\<lparr>rName = ''a.jpg'', rIsDir = False, rSolid = True, rOpen = Inr [0]\<rparr>]"
  have perm: "\<And>ns. mset (sortNames demo_ext ns) = mset ns"
    by (simp add: demo_ext_sort demo_sort_mset)
  have d: "map fst (filter (\<lambda>(path, isDir). \<not> isDir \<and> isSupportedImage path) ?entries) =
           [''in/b.jpg'', ''in/a.jpg'']"
    by (simp add: supported_in)
  have ds: "sortNames demo_ext [''in/b.jpg'', ''in/a.jpg''] = [''in/a.jpg'', ''in/b.jpg'']"
    by (simp add: demo_ext_sort)
  have z: "filter (\<lambda>f. \<not> zIsDir f \<and> isSupportedImage (zName f)) zip_ba = zip_ba"
    by (simp add: zip_ba_def supported_jpg)
  have zn: "map zName zip_ba = [''b.jpg'', ''a.jpg'']" by (simp add: zip_ba_def)
  have zs: "sortNames demo_ext [''b.jpg'', ''a.jpg''] = [''a.jpg'', ''b.jpg'']"
    by (simp add: demo_ext_sort)
  have zl: "length zip_ba = 2" by (simp add: zip_ba_def)
  have zo: "zip_ba \<noteq> [] \<and> (\<forall>f \<in> set zip_ba. \<exists>b. zOpen f = Inr b)"
    by (simp add: zip_ba_def)
  have q: "qualifying ?rfiles = ?rfiles" by (simp add: qualifying_def supported_jpg)
  have rs: "sortNames demo_ext [''a.jpg''] = [''a.jpg'']" by (simp add: demo_ext_sort)
  have pr: "presents solid_archive ?rfiles (\<lambda>f. [0])"
    by (simp add: presents_def solid_archive_def)
  have rl: "rList solid_archive = Inr ?rfiles" by (simp add: solid_archive_def)
  have u: "map int [0..<2] = [0, 1]" by (simp add: upt_rec)
  note t = enumeration_indices [where ext = demo_ext and entries = ?entries and zfiles = zip_ba
      and rfiles = ?rfiles and archive = solid_archive and Dry = False and content = "\<lambda>f. [0]"
      and pages = "[Inl ''no image'', Inr blank1]", OF perm]
  from t have c1: "\<exists>jobs. loadDir_jobs demo_ext (Inr ?entries) = Returns (2, jobs) \<and>
           map djId jobs = [0, 1] \<and> map djPath jobs = [''in/a.jpg'', ''in/b.jpg'']"
    unfolding d ds by (simp add: u)
  from t zo have c2: "\<exists>jobs. loadCbz_jobs demo_ext (Inr zip_ba) = Returns (2, jobs) \<and>
           map cjF jobs = zip_ba \<and>
           indexed_by [''a.jpg'', ''b.jpg''] (map (\<lambda>j. (cjId j, zName (cjF j))) jobs) \<and>
           dense 2 (map cjId jobs)"
    unfolding z zn zs zl by simp
  from t zo have c3: "\<exists>tasks. loadCbz demo_ext (Inr zip_ba) = Returns (2, tasks) \<and>
           map Filename tasks = [''b.jpg'', ''a.jpg''] \<and>
           indexed_by [''a.jpg'', ''b.jpg''] (map (\<lambda>t. (TaskId t, Filename t)) tasks) \<and>
           dense 2 (map TaskId tasks)"
    unfolding z zn zs zl by simp
  from t rl pr have c4: "\<exists>jobs. loadCbr_jobs demo_ext False solid_archive = Returns (1, jobs) \<and>
           map rjName jobs = [''a.jpg''] \<and>
           indexed_by [''a.jpg''] (map (\<lambda>j. (rjId j, rjName j)) jobs) \<and>
           dense 1 (map rjId jobs)"
    unfolding q by (simp add: rs)
  from t pr have c5: "\<exists>tasks. loadCbr demo_ext solid_archive = Returns (1, tasks) \<and>
           map Filename tasks = [''a.jpg''] \<and>
           indexed_by [''a.jpg''] (map (\<lambda>t. (TaskId t, Filename t)) tasks) \<and>
           dense 1 (map TaskId tasks)"
    unfolding q by (simp add: rs)
  from t have c6: "\<exists>ts. loadPdf demo_ext False (Some [Inl ''no image'', Inr blank1]) =
           Returns (2, ts) \<and> map tId ts = [0, 1]"
    by (simp add: u)
  from c1 c2 c3 c4 c5 c6 show ?thesis by (intro conjI)
qed

text \<open>
  An archive that holds the name \<open>a.jpg\<close> twice: both entries get the index 1, in both
  versions of \<^verbatim>\<open>loadCbz\<close>. And an archive whose only entry does not open: \<^verbatim>\<open>loadCbz\<close> of
  image\_processing.go exits.
\<close>

theorem enumeration_indices_counterexample:
  "loadCbz demo_ext (Inr zip_aa) =
     Returns (2, [\<lparr>TaskId = 1, Reader = [0], TaskPath = ''.'', Filename = ''a.jpg''\<rparr>,
                  \<lparr>TaskId = 1, Reader = [1], TaskPath = ''.'', Filename = ''a.jpg''\<rparr>]) \<and>
   loadCbz_jobs demo_ext (Inr zip_aa) =
     Returns (2, [\<lparr>cjId = 1, cjF = \<lparr>zName = ''a.jpg'', zIsDir = False, zOpen = Inr [0]\<rparr>\<rparr>,
                  \<lparr>cjId = 1, cjF = \<lparr>zName = ''a.jpg'', zIsDir = False, zOpen = Inr [1]\<rparr>\<rparr>]) \<and>
   \<not> dense 2 [1, 1] \<and>
   loadCbz demo_ext
     (Inr [\<lparr>zName = ''a.jpg'', zIsDir = False, zOpen = Inl ''zip: checksum error''\<rparr>]) = Exits 1"
proof -
  have u: "map int [0..<2] = [0, 1]" by (simp add: upt_rec)
  have "\<not> dense 2 [1, 1]" by (simp add: dense_def u)
  then show ?thesis
    by (simp add: loadCbz_def loadCbz_jobs_def zip_aa_def supported_jpg demo_ext_def
        indexNames_def lookupIndex_def)
qed

section \<open>Properties of the fallback bitmap\<close>










end
